theory Spec2Isabelle
  imports Main "HOL-Library.Word"
begin

unbundle bit_operations_syntax

section \<open>Compression envelope (internal/compression)\<close>

text \<open>
  A stored value is a frame: one tag byte naming the codec, then the payload.
  The codecs themselves (gzip, zlib, raw deflate, LZW) belong to the Go standard
  library, not to this repository, so the framing functions take them as a
  parameter: a writer maps the raw bytes to the compressed bytes or fails, a
  reader maps compressed bytes to the raw bytes or fails. The LZW pair also
  takes the bit order and the literal width that the call sites pass.
  The reader pools of \<^verbatim>\<open>compression.go\<close> only recycle reader objects; a pooled
  reader is reset on the new input before use, so the pools do not appear here.
  The constructors of the pools are taken to yield a reader (for zlib the
  constructor is \<^verbatim>\<open>zlib.NewReader(nil)\<close>), as in the second copy of the package
  (\<^verbatim>\<open>unnamed/part_002\<close>), which creates every reader directly on the payload.
\<close>

type_synonym byte = "8 word"
type_synonym bytes = "byte list"

datatype Order = LSB | MSB

record codecs =
  gzip_write :: "bytes \<Rightarrow> bytes option"
  gzip_read :: "bytes \<Rightarrow> bytes option"
  zlib_write :: "bytes \<Rightarrow> bytes option"
  zlib_read :: "bytes \<Rightarrow> bytes option"
  flate_write :: "bytes \<Rightarrow> bytes option"
  flate_read :: "bytes \<Rightarrow> bytes option"
  lzw_write :: "Order \<Rightarrow> nat \<Rightarrow> bytes \<Rightarrow> bytes option"
  lzw_read :: "Order \<Rightarrow> nat \<Rightarrow> bytes \<Rightarrow> bytes option"

text \<open>The constant block: \<^verbatim>\<open>None = iota, Gzip, Zlib, Flate, LZW, threshold = 50\<close>.\<close>

definition None_codec :: byte where "None_codec = 0"
definition Gzip :: byte where "Gzip = 1"
definition Zlib :: byte where "Zlib = 2"
definition Flate :: byte where "Flate = 3"
definition LZW :: byte where "LZW = 4"
definition threshold :: nat where "threshold = 50"

definition compressLZW :: "codecs \<Rightarrow> bytes \<Rightarrow> bytes option" where
  "compressLZW cs data = lzw_write cs LSB 8 data"

definition compressFlate :: "codecs \<Rightarrow> bytes \<Rightarrow> bytes option" where
  "compressFlate cs data = flate_write cs data"

definition compressZlib :: "codecs \<Rightarrow> bytes \<Rightarrow> bytes option" where
  "compressZlib cs data = zlib_write cs data"

definition compressGzip :: "codecs \<Rightarrow> bytes \<Rightarrow> bytes option" where
  "compressGzip cs data = gzip_write cs data"

text \<open>The table of compressors, in the order of \<^verbatim>\<open>compression.go\<close>.\<close>

definition compressors :: "codecs \<Rightarrow> (byte \<times> (bytes \<Rightarrow> bytes option)) list" where
  "compressors cs =
     [(Gzip, compressGzip cs), (Zlib, compressZlib cs),
      (Flate, compressFlate cs), (LZW, compressLZW cs)]"

text \<open>The same table in the order of the second copy of the package
  (\<^verbatim>\<open>unnamed/part_002\<close>), which tries LZW first and gzip last.\<close>

definition compressors_part002 :: "codecs \<Rightarrow> (byte \<times> (bytes \<Rightarrow> bytes option)) list" where
  "compressors_part002 cs =
     [(LZW, compressLZW cs), (Flate, compressFlate cs),
      (Zlib, compressZlib cs), (Gzip, compressGzip cs)]"

text \<open>The loop \<^verbatim>\<open>for _, c := range compressors\<close>: a candidate replaces the
  best one only when it was produced without error and is strictly shorter.\<close>

fun try_compressors ::
  "(byte \<times> (bytes \<Rightarrow> bytes option)) list \<Rightarrow> bytes \<Rightarrow> bytes \<times> byte \<Rightarrow> bytes \<times> byte" where
  "try_compressors [] data (best, bestType) = (best, bestType)"
| "try_compressors ((cid, compf) # rest) data (best, bestType) =
     (case compf data of
        Some compressed \<Rightarrow>
          if length compressed < length best
          then try_compressors rest data (compressed, cid)
          else try_compressors rest data (best, bestType)
      | None \<Rightarrow> try_compressors rest data (best, bestType))"

definition CompressData_with ::
  "(byte \<times> (bytes \<Rightarrow> bytes option)) list \<Rightarrow> bytes \<Rightarrow> bytes" where
  "CompressData_with tbl data =
     (if length data < threshold then None_codec # data
      else (case try_compressors tbl data (data, None_codec) of
              (best, bestType) \<Rightarrow> bestType # best))"

definition CompressData :: "codecs \<Rightarrow> bytes \<Rightarrow> bytes" where
  "CompressData cs data = CompressData_with (compressors cs) data"

definition CompressData_part002 :: "codecs \<Rightarrow> bytes \<Rightarrow> bytes" where
  "CompressData_part002 cs data = CompressData_with (compressors_part002 cs) data"

text \<open>
  \<^verbatim>\<open>DecompressData\<close>. Tags 0 and 1 are taken by the first block, which strips
  the tag in every case. The \<^verbatim>\<open>switch\<close> of the second block returns only when a
  reader succeeds; a failed reader leaves the switch, and the function ends in the
  gzip magic number test and \<^verbatim>\<open>return data\<close>.
\<close>

definition DecompressData :: "codecs \<Rightarrow> bytes \<Rightarrow> bytes" where
  "DecompressData cs data =
     (if length data = 0 then data
      else if hd data = 0 \<or> hd data = 1 then
        (if hd data = 1 then
           (case gzip_read cs (tl data) of
              Some result \<Rightarrow> result
            | None \<Rightarrow> tl data)
         else tl data)
      else
        (case (if hd data \<le> LZW then
                 (let compressionType = hd data; compressedData = tl data in
                  if compressionType = None_codec then Some compressedData
                  else if compressionType = Gzip then gzip_read cs compressedData
                  else if compressionType = Zlib then zlib_read cs compressedData
                  else if compressionType = Flate then flate_read cs compressedData
                  else if compressionType = LZW then lzw_read cs LSB 8 compressedData
                  else None)
               else None) of
           Some result \<Rightarrow> result
         | None \<Rightarrow>
             (if 2 \<le> length data \<and> data ! 0 = 0x1f \<and> data ! 1 = 0x8b then
                (case gzip_read cs data of
                   Some result \<Rightarrow> result
                 | None \<Rightarrow> data)
              else data)))"

text \<open>A reader inverts a writer on an input when it reads back whatever the
  writer produced for it (a writer that fails produces nothing to read back).\<close>

definition reads_back :: "(bytes \<Rightarrow> bytes option) \<Rightarrow> (bytes \<Rightarrow> bytes option) \<Rightarrow> bytes \<Rightarrow> bool" where
  "reads_back write read b = (case write b of None \<Rightarrow> True | Some c \<Rightarrow> read c = Some b)"


text \<open>The options the encoder tries on an input, in the order it tries them:
  the raw bytes first, then every compressor of the table that returned without
  error, each with its tag.\<close>

fun tried :: "(byte \<times> (bytes \<Rightarrow> bytes option)) list \<Rightarrow> bytes \<Rightarrow> (byte \<times> bytes) list" where
  "tried [] data = []"
| "tried ((cid, compf) # rest) data =
     (case compf data of
        Some compressed \<Rightarrow> (cid, compressed) # tried rest data
      | None \<Rightarrow> tried rest data)"

definition frame_of :: "byte \<times> bytes \<Rightarrow> bytes" where
  "frame_of c = fst c # snd c"

text \<open>A frame is the first smallest of a list of options when every option
  before it is strictly longer and every option after it is at least as long.\<close>

fun first_smallest :: "byte \<times> bytes \<Rightarrow> (byte \<times> bytes) list \<Rightarrow> bool" where
  "first_smallest c [] = False"
| "first_smallest c (x # xs) =
     ((x = c \<and> (\<forall>y \<in> set xs. length (frame_of c) \<le> length (frame_of y))) \<or>
      (length (frame_of c) < length (frame_of x) \<and> first_smallest c xs))"

section \<open>The LZW codec of the Go standard library\<close>

text \<open>
  \<^verbatim>\<open>compress/lzw\<close> is the one codec whose parameters the repository chooses at the
  call site (\<^verbatim>\<open>lzw.NewWriter(&buf, lzw.LSB, 8)\<close>, \<^verbatim>\<open>lzw.NewReader(..., lzw.LSB, 8)\<close>),
  so its writer and reader are written out here, for both bit orders, to run the
  framing functions on concrete frames. Codes are at most 12 bits wide; the writer
  sends a clear code first and an end code last; the writer's hash table is an
  association list from (prefix code, next byte) to code; the reader's two arrays
  are functions that start at zero.
\<close>

definition maxWidth :: nat where "maxWidth = 12"
definition maxCode :: nat where "maxCode = 2 ^ 12 - 1"
definition decoderInvalidCode :: nat where "decoderInvalidCode = 65535"

record Writer =
  w_order :: Order
  w_litWidth :: nat
  w_bits :: "32 word"
  w_nBits :: nat
  w_width :: nat
  w_hi :: nat
  w_overflow :: nat
  w_table :: "(nat \<times> nat) list"
  w_out :: bytes

function flushLSB :: "Writer \<Rightarrow> Writer" where
  "flushLSB w =
     (if 8 \<le> w_nBits w
      then flushLSB (w\<lparr>w_out := w_out w @ [ucast (w_bits w)],
                       w_bits := drop_bit 8 (w_bits w),
                       w_nBits := w_nBits w - 8\<rparr>)
      else w)"
  by pat_completeness auto
termination
  by (relation "measure w_nBits") auto

function flushMSB :: "Writer \<Rightarrow> Writer" where
  "flushMSB w =
     (if 8 \<le> w_nBits w
      then flushMSB (w\<lparr>w_out := w_out w @ [ucast (drop_bit 24 (w_bits w))],
                       w_bits := push_bit 8 (w_bits w),
                       w_nBits := w_nBits w - 8\<rparr>)
      else w)"
  by pat_completeness auto
termination
  by (relation "measure w_nBits") auto

definition writeLSB :: "Writer \<Rightarrow> nat \<Rightarrow> Writer" where
  "writeLSB w c =
     flushLSB (w\<lparr>w_bits := w_bits w OR push_bit (w_nBits w) (of_nat c),
                   w_nBits := w_nBits w + w_width w\<rparr>)"

definition writeMSB :: "Writer \<Rightarrow> nat \<Rightarrow> Writer" where
  "writeMSB w c =
     flushMSB (w\<lparr>w_bits := w_bits w OR push_bit (32 - w_width w - w_nBits w) (of_nat c),
                   w_nBits := w_nBits w + w_width w\<rparr>)"

definition write_code :: "Writer \<Rightarrow> nat \<Rightarrow> Writer" where
  "write_code w c = (case w_order w of LSB \<Rightarrow> writeLSB w c | MSB \<Rightarrow> writeMSB w c)"

text \<open>incHi: the flag tells whether the table was reset (errOutOfCodes).\<close>

definition incHi :: "Writer \<Rightarrow> Writer \<times> bool" where
  "incHi w0 =
     (let w1 = w0\<lparr>w_hi := w_hi w0 + 1\<rparr>;
          w2 = (if w_hi w1 = w_overflow w1
                then w1\<lparr>w_width := w_width w1 + 1, w_overflow := 2 * w_overflow w1\<rparr>
                else w1)
      in if w_hi w2 = maxCode
         then (let clear = 2 ^ w_litWidth w2;
                   w3 = write_code w2 clear
               in (w3\<lparr>w_width := w_litWidth w3 + 1, w_hi := clear + 1,
                       w_overflow := 2 * clear, w_table := []\<rparr>, True))
         else (w2, False))"

fun write_loop :: "Writer \<Rightarrow> nat \<Rightarrow> bytes \<Rightarrow> Writer \<times> nat" where
  "write_loop w code [] = (w, code)"
| "write_loop w code (x # p) =
     (let literal = unat x; key = code * 256 + literal in
      case map_of (w_table w) key of
        Some t \<Rightarrow> write_loop w t p
      | None \<Rightarrow>
          (let r = incHi (write_code w code) in
           if snd r then write_loop (fst r) literal p
           else write_loop (fst r\<lparr>w_table := (key, w_hi (fst r)) # w_table (fst r)\<rparr>) literal p))"

definition newWriter :: "Order \<Rightarrow> nat \<Rightarrow> Writer" where
  "newWriter order litWidth =
     \<lparr>w_order = order, w_litWidth = litWidth, w_bits = 0, w_nBits = 0,
      w_width = 1 + litWidth, w_hi = 2 ^ litWidth + 1, w_overflow = 2 ^ (litWidth + 1),
      w_table = [], w_out = []\<rparr>"

definition close_writer :: "Writer \<Rightarrow> nat option \<Rightarrow> bytes" where
  "close_writer w0 savedCode =
     (let w1 = (case savedCode of
                  Some code \<Rightarrow> fst (incHi (write_code w0 code))
                | None \<Rightarrow> write_code w0 (2 ^ w_litWidth w0));
          w2 = write_code w1 (2 ^ w_litWidth w1 + 1)
      in if 0 < w_nBits w2
         then w_out w2 @ [ucast (case w_order w2 of MSB \<Rightarrow> drop_bit 24 (w_bits w2) | LSB \<Rightarrow> w_bits w2)]
         else w_out w2)"

definition go_lzw_write :: "Order \<Rightarrow> nat \<Rightarrow> bytes \<Rightarrow> bytes option" where
  "go_lzw_write order litWidth p =
     (if litWidth < 2 \<or> 8 < litWidth then None
      else if \<exists>x \<in> set p. 2 ^ litWidth \<le> unat x then None
      else (case p of
              [] \<Rightarrow> Some (close_writer (newWriter order litWidth) None)
            | x # rest \<Rightarrow>
                (let w0 = newWriter order litWidth;
                     w1 = write_code w0 (2 ^ litWidth)
                 in case write_loop w1 (unat x) rest of
                      (w2, code) \<Rightarrow> Some (close_writer w2 (Some code)))))"


record Reader =
  r_input :: bytes
  r_bits :: "32 word"
  r_nBits :: nat
  r_width :: nat
  r_litWidth :: nat
  r_clear :: nat
  r_eof :: nat
  r_hi :: nat
  r_overflow :: nat
  r_last :: nat
  r_suffix :: "nat \<Rightarrow> byte"
  r_prefix :: "nat \<Rightarrow> nat"
  r_output :: bytes

fun fillLSB :: "nat \<Rightarrow> 32 word \<times> nat \<Rightarrow> bytes \<Rightarrow> (32 word \<times> nat \<times> bytes) option" where
  "fillLSB width (bits, nBits) inp =
     (if nBits < width then
        (case inp of
           [] \<Rightarrow> None
         | x # inp' \<Rightarrow> fillLSB width (bits OR push_bit nBits (ucast x), nBits + 8) inp')
      else Some (bits, nBits, inp))"

fun fillMSB :: "nat \<Rightarrow> 32 word \<times> nat \<Rightarrow> bytes \<Rightarrow> (32 word \<times> nat \<times> bytes) option" where
  "fillMSB width (bits, nBits) inp =
     (if nBits < width then
        (case inp of
           [] \<Rightarrow> None
         | x # inp' \<Rightarrow> fillMSB width (bits OR push_bit (24 - nBits) (ucast x), nBits + 8) inp')
      else Some (bits, nBits, inp))"

definition readLSB :: "Reader \<Rightarrow> (nat \<times> Reader) option" where
  "readLSB r =
     (case fillLSB (r_width r) (r_bits r, r_nBits r) (r_input r) of
        None \<Rightarrow> None
      | Some (bits, nBits, inp) \<Rightarrow>
          Some (unat (take_bit (r_width r) bits),
                r\<lparr>r_input := inp, r_bits := drop_bit (r_width r) bits,
                  r_nBits := nBits - r_width r\<rparr>))"

definition readMSB :: "Reader \<Rightarrow> (nat \<times> Reader) option" where
  "readMSB r =
     (case fillMSB (r_width r) (r_bits r, r_nBits r) (r_input r) of
        None \<Rightarrow> None
      | Some (bits, nBits, inp) \<Rightarrow>
          Some (unat (drop_bit (32 - r_width r) bits),
                r\<lparr>r_input := inp, r_bits := push_bit (r_width r) bits,
                  r_nBits := nBits - r_width r\<rparr>))"

function expand :: "nat \<Rightarrow> (nat \<Rightarrow> nat) \<Rightarrow> (nat \<Rightarrow> byte) \<Rightarrow> nat \<Rightarrow> (bytes \<times> nat) option" where
  "expand clear pre suf c =
     (if c < clear then Some ([of_nat c], c)
      else if pre c < c then
        (case expand clear pre suf (pre c) of
           None \<Rightarrow> None
         | Some (bs, h) \<Rightarrow> Some (bs @ [suf c], h))
      else None)"
  by pat_completeness auto
termination
  by (relation "measure (\<lambda>(clear, pre, suf, c). c)") auto

definition advance :: "Reader \<Rightarrow> nat \<Rightarrow> Reader" where
  "advance r code =
     (let r1 = r\<lparr>r_last := code, r_hi := r_hi r + 1\<rparr> in
      if r_overflow r1 \<le> r_hi r1 then
        (if r_width r1 = maxWidth
         then r1\<lparr>r_last := decoderInvalidCode, r_hi := r_hi r1 - 1\<rparr>
         else r1\<lparr>r_width := r_width r1 + 1, r_overflow := 2 ^ (r_width r1 + 1)\<rparr>)
      else r1)"

definition save_hi :: "Reader \<Rightarrow> nat \<Rightarrow> Reader" where
  "save_hi r c =
     (if r_last r \<noteq> decoderInvalidCode
      then r\<lparr>r_suffix := (r_suffix r)(r_hi r := of_nat c),
             r_prefix := (r_prefix r)(r_hi r := r_last r)\<rparr>
      else r)"

declare fillLSB.simps [simp del] fillMSB.simps [simp del]

lemma fillLSB_measure:
  "fillLSB width (bits, nBits) inp = Some (bits', nBits', inp') \<Longrightarrow>
   8 * length inp' + nBits' = 8 * length inp + nBits \<and> width \<le> nBits'"
proof (induction inp arbitrary: bits nBits)
  case Nil
  then show ?case by (auto simp: fillLSB.simps split: if_splits)
next
  case (Cons x inp)
  show ?case
  proof (cases "nBits < width")
    case True
    with Cons.prems
    have "fillLSB width (bits OR push_bit nBits (ucast x), nBits + 8) inp = Some (bits', nBits', inp')"
      by (simp add: fillLSB.simps fillMSB.simps)
    from Cons.IH [OF this] show ?thesis by simp
  next
    case False
    with Cons.prems show ?thesis by (auto simp: fillLSB.simps)
  qed
qed

lemma fillMSB_measure:
  "fillMSB width (bits, nBits) inp = Some (bits', nBits', inp') \<Longrightarrow>
   8 * length inp' + nBits' = 8 * length inp + nBits \<and> width \<le> nBits'"
proof (induction inp arbitrary: bits nBits)
  case Nil
  then show ?case by (auto simp: fillMSB.simps split: if_splits)
next
  case (Cons x inp)
  show ?case
  proof (cases "nBits < width")
    case True
    with Cons.prems
    have "fillMSB width (bits OR push_bit (24 - nBits) (ucast x), nBits + 8) inp = Some (bits', nBits', inp')"
      by (simp add: fillLSB.simps fillMSB.simps)
    from Cons.IH [OF this] show ?thesis by simp
  next
    case False
    with Cons.prems show ?thesis by (auto simp: fillMSB.simps)
  qed
qed

definition bits_left :: "Reader \<Rightarrow> nat" where
  "bits_left r = 8 * length (r_input r) + r_nBits r"

lemma readLSB_measure:
  "readLSB r = Some (code, r1) \<Longrightarrow> bits_left r1 + r_width r = bits_left r"
  by (auto simp: readLSB_def bits_left_def split: option.splits dest!: fillLSB_measure)

lemma readMSB_measure:
  "readMSB r = Some (code, r1) \<Longrightarrow> bits_left r1 + r_width r = bits_left r"
  by (auto simp: readMSB_def bits_left_def split: option.splits dest!: fillMSB_measure)

lemma read_measure:
  "(case order of LSB \<Rightarrow> readLSB r | MSB \<Rightarrow> readMSB r) = Some (code, r1) \<Longrightarrow>
   r_width r \<noteq> 0 \<Longrightarrow> bits_left r1 < bits_left r"
  by (cases order) (auto dest: readLSB_measure readMSB_measure)

lemma bits_left_advance [simp]: "bits_left (advance r c) = bits_left r"
  by (simp add: advance_def bits_left_def Let_def)

lemma bits_left_save_hi [simp]: "bits_left (save_hi r c) = bits_left r"
  by (simp add: save_hi_def bits_left_def)

lemma bits_left_upd [simp]:
  "bits_left (r\<lparr>r_output := out\<rparr>) = bits_left r"
  "bits_left (r\<lparr>r_width := w, r_hi := h, r_overflow := ov, r_last := l\<rparr>) = bits_left r"
  by (simp_all add: bits_left_def)

function decode :: "Order \<Rightarrow> Reader \<Rightarrow> bytes option" where
  "decode order r =
     (if r_width r = 0 then None
      else
      (case (case order of LSB \<Rightarrow> readLSB r | MSB \<Rightarrow> readMSB r) of
         None \<Rightarrow> None
       | Some (code, r1) \<Rightarrow>
           if code < r_clear r1 then
             decode order
               (advance (save_hi (r1\<lparr>r_output := r_output r1 @ [of_nat code]\<rparr>) code) code)
           else if code = r_clear r1 then
             decode order
               (r1\<lparr>r_width := 1 + r_litWidth r1, r_hi := r_eof r1,
                    r_overflow := 2 ^ (1 + r_litWidth r1), r_last := decoderInvalidCode\<rparr>)
           else if code = r_eof r1 then Some (r_output r1)
           else if code \<le> r_hi r1 then
             (if code = r_hi r1 \<and> r_last r1 \<noteq> decoderInvalidCode then
                (case expand (r_clear r1) (r_prefix r1) (r_suffix r1) (r_last r1) of
                   None \<Rightarrow> None
                 | Some (bs, h) \<Rightarrow>
                     decode order
                       (advance (save_hi (r1\<lparr>r_output := r_output r1 @ bs @ [of_nat h]\<rparr>) h) code))
              else
                (case expand (r_clear r1) (r_prefix r1) (r_suffix r1) code of
                   None \<Rightarrow> None
                 | Some (bs, h) \<Rightarrow>
                     decode order
                       (advance (save_hi (r1\<lparr>r_output := r_output r1 @ bs\<rparr>) h) code)))
           else None))"
  by pat_completeness auto
termination
  by (relation "measure (\<lambda>(order, r). bits_left r)") (auto dest: read_measure)


definition newReader :: "bytes \<Rightarrow> nat \<Rightarrow> Reader" where
  "newReader src litWidth =
     \<lparr>r_input = src, r_bits = 0, r_nBits = 0, r_width = 1 + litWidth,
      r_litWidth = litWidth, r_clear = 2 ^ litWidth, r_eof = 2 ^ litWidth + 1,
      r_hi = 2 ^ litWidth + 1, r_overflow = 2 ^ (1 + litWidth),
      r_last = decoderInvalidCode, r_suffix = (\<lambda>_. 0), r_prefix = (\<lambda>_. 0),
      r_output = []\<rparr>"

definition go_lzw_read :: "Order \<Rightarrow> nat \<Rightarrow> bytes \<Rightarrow> bytes option" where
  "go_lzw_read order litWidth src =
     (if litWidth < 2 \<or> 8 < litWidth then None
      else decode order (newReader src litWidth))"



section \<open>A concrete codec set\<close>

text \<open>
  To run the framing functions on concrete inputs the codec parameter needs a
  value. LZW is the codec above. The three members of the DEFLATE family are
  replaced by stand-ins that store the input behind the leading bytes of the
  format and read back only what carries those bytes; they have the one property
  the theorems below ask of a codec, that reading returns what was written.
\<close>

definition stored_write :: "bytes \<Rightarrow> bytes \<Rightarrow> bytes option" where
  "stored_write magic data = Some (magic @ data)"

definition stored_read :: "bytes \<Rightarrow> bytes \<Rightarrow> bytes option" where
  "stored_read magic src =
     (if take (length magic) src = magic \<and> length magic \<le> length src
      then Some (drop (length magic) src) else None)"

definition sample_codecs :: codecs where
  "sample_codecs =
     \<lparr>gzip_write = stored_write [0x1f, 0x8b, 0x08], gzip_read = stored_read [0x1f, 0x8b, 0x08],
      zlib_write = stored_write [0x78, 0x9c], zlib_read = stored_read [0x78, 0x9c],
      flate_write = stored_write [0x01], flate_read = stored_read [0x01],
      lzw_write = go_lzw_write, lzw_read = go_lzw_read\<rparr>"

definition sample_data :: bytes where
  "sample_data = replicate 50 0x61"

section \<open>Secondary index (internal/indexing, internal/reflection)\<close>

subsection \<open>Go values as the index sees them\<close>

text \<open>
  The index receives every field value as an \<^verbatim>\<open>interface{}\<close>: either the nil
  interface or a value with its dynamic type. Types are finite trees. A payload
  carries what equality looks at: scalars by value, pointers, channels, maps,
  slices and functions by a reference, structs and arrays by their components.
  Floating point payloads are not distinguished from other scalars, so a NaN,
  which is unequal to itself, has no counterpart here.
\<close>

datatype gtype =
    TBool | TInt | TUint | TFloat | TComplex | TString | TUnsafePointer
  | TSlice gtype | TMap gtype gtype | TFunc | TPtr gtype | TArray nat gtype
  | TStruct "gtype list" | TInterface | TChan gtype

datatype gdata = DBool bool | DInt int | DStr string | DRef nat | DSeq "gdata list"

datatype gval = VNil | Val gtype gdata

text \<open>\<^verbatim>\<open>isTypeHashable\<close>, by the kind of the type.\<close>

fun isTypeHashable :: "gtype \<Rightarrow> bool" where
  "isTypeHashable (TSlice t) = False"
| "isTypeHashable (TMap k v) = False"
| "isTypeHashable TFunc = False"
| "isTypeHashable (TPtr t) = isTypeHashable t"
| "isTypeHashable (TArray n t) = isTypeHashable t"
| "isTypeHashable (TStruct ts) = (\<forall>t \<in> set ts. isTypeHashable t)"
| "isTypeHashable TInterface = False"
| "isTypeHashable (TChan t) = False"
| "isTypeHashable TBool = True"
| "isTypeHashable TInt = True"
| "isTypeHashable TUint = True"
| "isTypeHashable TFloat = True"
| "isTypeHashable TComplex = True"
| "isTypeHashable TString = True"
| "isTypeHashable TUnsafePointer = True"

fun isHashable :: "gval \<Rightarrow> bool" where
  "isHashable VNil = True"
| "isHashable (Val t d) = isTypeHashable t"

text \<open>
  What the Go runtime accepts as the key of a \<^verbatim>\<open>map[interface{}]\<close>: using a
  value whose dynamic type is a slice, a map or a function, or a struct or array
  with such a component, panics (also on lookup). The dynamic value held by an
  interface-typed component is not part of the payload, so such a component is
  taken to hash.
\<close>

fun comparableType :: "gtype \<Rightarrow> bool" where
  "comparableType (TSlice t) = False"
| "comparableType (TMap k v) = False"
| "comparableType TFunc = False"
| "comparableType (TArray n t) = comparableType t"
| "comparableType (TStruct ts) = (\<forall>t \<in> set ts. comparableType t)"
| "comparableType (TPtr t) = True"
| "comparableType TInterface = True"
| "comparableType (TChan t) = True"
| "comparableType TBool = True"
| "comparableType TInt = True"
| "comparableType TUint = True"
| "comparableType TFloat = True"
| "comparableType TComplex = True"
| "comparableType TString = True"
| "comparableType TUnsafePointer = True"

fun mapKeyOK :: "gval \<Rightarrow> bool" where
  "mapKeyOK VNil = True"
| "mapKeyOK (Val t d) = comparableType t"

subsection \<open>Records and the field matcher\<close>

text \<open>
  A record is a struct value: its fields in declaration order, each with its
  name, its \<^verbatim>\<open>json\<close> tag (empty when there is none), whether it is exported, its
  declared type, and the value that \<^verbatim>\<open>Field(i).Interface()\<close> yields.
\<close>

record sfield =
  f_name :: string
  f_json :: string
  f_exported :: bool
  f_type :: gtype
  f_value :: gval

type_synonym entity = "sfield list"

text \<open>A field of a declared type other than an interface holds a value of that
  type; an interface-typed field holds nil or a value of a concrete type.\<close>

definition wf_field :: "sfield \<Rightarrow> bool" where
  "wf_field f \<longleftrightarrow>
     (case f_value f of
        VNil \<Rightarrow> f_type f = TInterface
      | Val t d \<Rightarrow> t \<noteq> TInterface \<and> (f_type f = TInterface \<or> f_type f = t))"

datatype error =
    PanicUnexportedField
  | PanicFieldIndex
  | PanicUnhashableKey
  | ErrDatabaseNotFound
  | ErrTimeoutResults

text \<open>The name taken from a \<^verbatim>\<open>json\<close> tag: the part before the first comma,
  unless that part is empty or \<^verbatim>\<open>-\<close>.\<close>

definition jsonTagName :: "string \<Rightarrow> string option" where
  "jsonTagName jsonTag =
     (if jsonTag \<noteq> [] then
        (let cut = takeWhile (\<lambda>c. c \<noteq> CHR '','') jsonTag in
         if cut \<noteq> [] \<and> cut \<noteq> ''-'' then Some cut else None)
      else None)"

text \<open>The name a field is indexed under: the tag name when there is one, the
  field name otherwise.\<close>

definition indexName :: "sfield \<Rightarrow> string" where
  "indexName f = (case jsonTagName (f_json f) of Some t \<Rightarrow> t | None \<Rightarrow> f_name f)"

record FieldMatcher =
  FieldMap :: "string \<rightharpoonup> nat"
  JsonMap :: "string \<rightharpoonup> nat"

fun matcher_loop :: "sfield list \<Rightarrow> nat \<Rightarrow> FieldMatcher \<Rightarrow> FieldMatcher" where
  "matcher_loop [] i m = m"
| "matcher_loop (f # fs) i m =
     matcher_loop fs (i + 1)
       (m\<lparr>FieldMap := (FieldMap m)(f_name f \<mapsto> i),
          JsonMap := (case jsonTagName (f_json f) of
                        Some t \<Rightarrow> (JsonMap m)(t \<mapsto> i)
                      | None \<Rightarrow> JsonMap m)\<rparr>)"

definition GetFieldMatcher :: "entity \<Rightarrow> FieldMatcher" where
  "GetFieldMatcher e = matcher_loop e 0 \<lparr>FieldMap = Map.empty, JsonMap = Map.empty\<rparr>"

text \<open>\<^verbatim>\<open>entityValue.Field(idx).Interface()\<close> panics on an unexported field.\<close>

definition field_interface :: "entity \<Rightarrow> nat \<Rightarrow> error + gval" where
  "field_interface e idx =
     (if idx < length e then
        (if f_exported (e ! idx) then Inr (f_value (e ! idx)) else Inl PanicUnexportedField)
      else Inl PanicFieldIndex)"

definition GetFieldValue :: "FieldMatcher \<Rightarrow> entity \<Rightarrow> string \<Rightarrow> error + gval option" where
  "GetFieldValue fm e key =
     (case JsonMap fm key of
        Some idx \<Rightarrow> map_sum id Some (field_interface e idx)
      | None \<Rightarrow>
          (case FieldMap fm key of
             Some idx \<Rightarrow> map_sum id Some (field_interface e idx)
           | None \<Rightarrow> Inr None))"

subsection \<open>The index\<close>

type_synonym fieldIndex = "gval \<rightharpoonup> string list"
type_synonym bucketIndex = "string \<rightharpoonup> fieldIndex"
type_synonym indexes = "string \<rightharpoonup> bucketIndex"

text \<open>
  One pass of the loop of \<^verbatim>\<open>UpdateIndex\<close> over a field, on the index of the
  bucket. The map of the field is created when it is missing, whatever the value
  of the field turns out to be.
\<close>

definition update_field :: "string \<Rightarrow> entity \<Rightarrow> FieldMatcher \<Rightarrow> sfield \<Rightarrow> bucketIndex \<Rightarrow> error + bucketIndex" where
  "update_field key e matcher field bx =
     (let fieldName = indexName field;
          fieldIndex = (case bx fieldName of None \<Rightarrow> Map.empty | Some fi \<Rightarrow> fi)
      in case GetFieldValue matcher e fieldName of
           Inl err \<Rightarrow> Inl err
         | Inr None \<Rightarrow> Inr (bx(fieldName \<mapsto> fieldIndex))
         | Inr (Some fieldValue) \<Rightarrow>
             if \<not> isHashable fieldValue then Inr (bx(fieldName \<mapsto> fieldIndex))
             else
               (let keys = (case fieldIndex fieldValue of None \<Rightarrow> [] | Some ks \<Rightarrow> ks);
                    keyExists = (key \<in> set keys)
                in if \<not> keyExists
                   then Inr (bx(fieldName \<mapsto> fieldIndex(fieldValue \<mapsto> keys @ [key])))
                   else Inr (bx(fieldName \<mapsto> fieldIndex))))"

fun update_fields :: "string \<Rightarrow> entity \<Rightarrow> FieldMatcher \<Rightarrow> sfield list \<Rightarrow> bucketIndex \<Rightarrow> error + bucketIndex" where
  "update_fields key e matcher [] bx = Inr bx"
| "update_fields key e matcher (field # rest) bx =
     (case update_field key e matcher field bx of
        Inl err \<Rightarrow> Inl err
      | Inr bx' \<Rightarrow> update_fields key e matcher rest bx')"

text \<open>\<^verbatim>\<open>UpdateIndex\<close>. A panic leaves the function before the end; the index it
  leaves behind is not described.\<close>

definition UpdateIndex :: "string \<Rightarrow> string \<Rightarrow> entity \<Rightarrow> indexes \<Rightarrow> error + indexes" where
  "UpdateIndex bucketName key e bi =
     (let bx = (case bi bucketName of None \<Rightarrow> Map.empty | Some b \<Rightarrow> b) in
      case update_fields key e (GetFieldMatcher e) e bx of
        Inl err \<Rightarrow> Inl err
      | Inr bx' \<Rightarrow> Inr (bi(bucketName \<mapsto> bx')))"

text \<open>One pass of the loop of \<^verbatim>\<open>RemoveFromIndex\<close>: the first occurrence of the
  key is cut out of the key list of the value, and a key list of length zero is
  deleted.\<close>

definition remove_field :: "string \<Rightarrow> entity \<Rightarrow> FieldMatcher \<Rightarrow> sfield \<Rightarrow> bucketIndex \<Rightarrow> error + bucketIndex" where
  "remove_field key e matcher field bx =
     (let fieldName = indexName field in
      case bx fieldName of
        None \<Rightarrow> Inr bx
      | Some fieldIndex \<Rightarrow>
          (case GetFieldValue matcher e fieldName of
             Inl err \<Rightarrow> Inl err
           | Inr None \<Rightarrow> Inr bx
           | Inr (Some fieldValue) \<Rightarrow>
               if \<not> isHashable fieldValue then Inr bx
               else
                 (case fieldIndex fieldValue of
                    None \<Rightarrow> Inr bx
                  | Some keys \<Rightarrow>
                      (let keys' = remove1 key keys in
                       if length keys' = 0
                       then Inr (bx(fieldName \<mapsto> fieldIndex(fieldValue := None)))
                       else Inr (bx(fieldName \<mapsto> fieldIndex(fieldValue \<mapsto> keys')))))))"

fun remove_fields :: "string \<Rightarrow> entity \<Rightarrow> FieldMatcher \<Rightarrow> sfield list \<Rightarrow> bucketIndex \<Rightarrow> error + bucketIndex" where
  "remove_fields key e matcher [] bx = Inr bx"
| "remove_fields key e matcher (field # rest) bx =
     (case remove_field key e matcher field bx of
        Inl err \<Rightarrow> Inl err
      | Inr bx' \<Rightarrow> remove_fields key e matcher rest bx')"

definition RemoveFromIndex :: "string \<Rightarrow> string \<Rightarrow> entity \<Rightarrow> indexes \<Rightarrow> error + indexes" where
  "RemoveFromIndex bucketName key e bi =
     (case bi bucketName of
        None \<Rightarrow> Inr bi
      | Some bx \<Rightarrow>
          (case remove_fields key e (GetFieldMatcher e) e bx of
             Inl err \<Rightarrow> Inl err
           | Inr bx' \<Rightarrow> Inr (bi(bucketName \<mapsto> bx'))))"

text \<open>\<^verbatim>\<open>GetIndexedKeys\<close> returns a copy of the key list and whether it was found;
  the nil slice of the three early returns is the empty list.\<close>

definition GetIndexedKeys :: "indexes \<Rightarrow> string \<Rightarrow> string \<Rightarrow> gval \<Rightarrow> error + string list \<times> bool" where
  "GetIndexedKeys bi bucketName field v =
     (case bi bucketName of
        None \<Rightarrow> Inr ([], False)
      | Some bucketIndex \<Rightarrow>
          (case bucketIndex field of
             None \<Rightarrow> Inr ([], False)
           | Some fieldIndex \<Rightarrow>
               if \<not> mapKeyOK v then Inl PanicUnhashableKey
               else
                 (case fieldIndex v of
                    None \<Rightarrow> Inr ([], False)
                  | Some keys \<Rightarrow> Inr (keys, True))))"

definition HasIndex :: "indexes \<Rightarrow> string \<Rightarrow> bool" where
  "HasIndex bi bucketName \<longleftrightarrow> bi bucketName \<noteq> None"


text \<open>The state every index built by these functions is in: no key list is
  empty and no key list holds a key twice.\<close>

definition index_inv :: "indexes \<Rightarrow> bool" where
  "index_inv bi \<longleftrightarrow>
     (\<forall>b bx fn fi v keys. bi b = Some bx \<longrightarrow> bx fn = Some fi \<longrightarrow> fi v = Some keys \<longrightarrow>
        keys \<noteq> [] \<and> distinct keys)"

text \<open>
  For the proofs: the key list stored for a value of a field, read through the
  three levels of the index (\<open>None\<close> when a level is missing); the key list after
  one more insertion of a key; what is left of an entry after one removal of a
  key.
\<close>

definition bentry :: "bucketIndex \<Rightarrow> string \<Rightarrow> gval \<Rightarrow> string list option" where
  "bentry bx fn v = (case bx fn of None \<Rightarrow> None | Some fi \<Rightarrow> fi v)"

definition entry :: "indexes \<Rightarrow> string \<Rightarrow> string \<Rightarrow> gval \<Rightarrow> string list option" where
  "entry bi b fn v = (case bi b of None \<Rightarrow> None | Some bx \<Rightarrow> bentry bx fn v)"

definition add_key :: "string \<Rightarrow> string list option \<Rightarrow> string list" where
  "add_key key en =
     (case en of
        None \<Rightarrow> [key]
      | Some ks \<Rightarrow> if key \<in> set ks then ks else ks @ [key])"

definition del_key :: "string \<Rightarrow> string list option \<Rightarrow> string list option" where
  "del_key key en =
     (case en of
        None \<Rightarrow> None
      | Some ks \<Rightarrow> if remove1 key ks = [] then None else Some (remove1 key ks))"

definition bx_distinct :: "bucketIndex \<Rightarrow> bool" where
  "bx_distinct bx \<longleftrightarrow> (\<forall>fn v ks. bentry bx fn v = Some ks \<longrightarrow> distinct ks)"

subsection \<open>A sample record\<close>

text \<open>A record with a tagged string field, a slice field, and a field declared
  as \<^verbatim>\<open>interface{}\<close> that holds an integer.\<close>

definition name_field :: sfield where
  "name_field = \<lparr>f_name = ''Name'', f_json = ''name'', f_exported = True,
                  f_type = TString, f_value = Val TString (DStr ''Andrew'')\<rparr>"

definition tags_field :: sfield where
  "tags_field = \<lparr>f_name = ''Tags'', f_json = ''tags,omitempty'', f_exported = True,
                  f_type = TSlice TString, f_value = Val (TSlice TString) (DRef 1)\<rparr>"

definition data_field :: sfield where
  "data_field = \<lparr>f_name = ''Data'', f_json = [], f_exported = True,
                  f_type = TInterface, f_value = Val TInt (DInt 5)\<rparr>"

definition sample_record :: entity where
  "sample_record = [name_field, tags_field, data_field]"

section \<open>Queries (bucket.FindWhereInDatabase, database.DB)\<close>

subsection \<open>The store and what the query needs from outside\<close>

text \<open>
  \<^verbatim>\<open>FindWhereInDatabase\<close> exists in two copies. The model follows the one of
  \<^verbatim>\<open>unnamed/part_001\<close>, which resolves one criterion or several through the index
  and runs at most six workers with timers of 10 and 60 seconds. The copy of
  \<^verbatim>\<open>bucket/bucket_main.go\<close> resolves a single criterion only, runs four workers
  and sets the timers to 5 and 30 seconds; its producer, workers and collector
  are the same, and the durations do not appear in the model.

  The bolt store is a collaborator: a database maps a bucket name to the
  key/value pairs of the bucket in key order, and a missing bucket to nothing.
  JSON decoding into a fresh record of the queried type, \<^verbatim>\<open>reflect.DeepEqual\<close>
  and the number of CPUs come from outside as well.
\<close>

type_synonym store = "string \<rightharpoonup> (string \<times> bytes) list"

record env =
  env_codecs :: codecs
  unmarshal :: "bytes \<Rightarrow> entity option"
  DeepEqual :: "gval \<Rightarrow> gval \<Rightarrow> bool"
  constructor :: entity
  NumCPU :: nat

text \<open>\<^verbatim>\<open>db.Get\<close>, as far as its error is looked at: the record when the error is
  nil. (The rewrite of a value in the old format that it starts in the
  background does not change what it returns.)\<close>

definition db_Get :: "env \<Rightarrow> store \<Rightarrow> string \<Rightarrow> string \<Rightarrow> entity option" where
  "db_Get ev st bucketName key =
     (if key = [] then None
      else
        (case st bucketName of
           None \<Rightarrow> None
         | Some b \<Rightarrow>
             (case map_of b key of
                None \<Rightarrow> None
              | Some data \<Rightarrow>
                  if length data = 0 then None
                  else unmarshal ev (DecompressData (env_codecs ev) data))))"

text \<open>\<^verbatim>\<open>db.ForEach\<close> hands every value to the callback after
  \<^verbatim>\<open>DecompressData\<close>; a missing bucket is an error before the first value.\<close>

definition db_ForEach_values :: "env \<Rightarrow> store \<Rightarrow> string \<Rightarrow> bytes list option" where
  "db_ForEach_values ev st bucketName =
     (case st bucketName of
        None \<Rightarrow> None
      | Some b \<Rightarrow> Some (map (\<lambda>kv. DecompressData (env_codecs ev) (snd kv)) b))"

subsection \<open>Resolving criteria through the index\<close>

fun intersect_loop :: "string list \<Rightarrow> (string \<rightharpoonup> bool) \<Rightarrow> string list" where
  "intersect_loop [] bMap = []"
| "intersect_loop (item # rest) bMap =
     (if (case bMap item of Some t \<Rightarrow> t | None \<Rightarrow> False)
      then item # intersect_loop rest (bMap(item := None))
      else intersect_loop rest bMap)"

definition intersectStringSlices :: "string list \<Rightarrow> string list \<Rightarrow> string list" where
  "intersectStringSlices a b =
     (if length a = 0 \<or> length b = 0 then []
      else
        (let a' = (if length b < length a then b else a);
             b' = (if length b < length a then a else b);
             bMap = fold (\<lambda>item m. m(item \<mapsto> True)) b' Map.empty
         in intersect_loop a' bMap))"

text \<open>The candidates are re-read from the store in the order of the key list; a
  key whose read fails is skipped.\<close>

definition fetch :: "env \<Rightarrow> store \<Rightarrow> string \<Rightarrow> string list \<Rightarrow> entity list" where
  "fetch ev st bucketName keys = List.map_filter (db_Get ev st bucketName) keys"

text \<open>
  The loop over two or more criteria. The criteria are a Go map; the list is the
  order in which the \<^verbatim>\<open>range\<close> visits them. \<^verbatim>\<open>candidateKeys\<close> is nil (\<open>None\<close>)
  before the first criterion and after a criterion that the index does not have.
\<close>

datatype loop_result = EarlyEmpty | Candidates "string list option"

fun criteria_loop ::
  "indexes \<Rightarrow> string \<Rightarrow> (string \<times> gval) list \<Rightarrow> string list option \<Rightarrow> bool \<Rightarrow> error + loop_result" where
  "criteria_loop bi bucketName [] candidateKeys firstField = Inr (Candidates candidateKeys)"
| "criteria_loop bi bucketName ((field, v) # rest) candidateKeys firstField =
     (case GetIndexedKeys bi bucketName field v of
        Inl err \<Rightarrow> Inl err
      | Inr (keys, found) \<Rightarrow>
          if found then
            (if firstField then criteria_loop bi bucketName rest (Some keys) False
             else
               (let ck = intersectStringSlices
                           (case candidateKeys of Some c \<Rightarrow> c | None \<Rightarrow> []) keys
                in if length ck = 0 then Inr EarlyEmpty
                   else criteria_loop bi bucketName rest (Some ck) False))
          else Inr (Candidates None))"

text \<open>The part of \<^verbatim>\<open>FindWhereInDatabase\<close> before the scan: the records when the
  index answered, \<open>None\<close> when the function goes on to the scan.\<close>

definition index_lookup ::
  "env \<Rightarrow> store \<Rightarrow> indexes \<Rightarrow> string \<Rightarrow> (string \<times> gval) list \<Rightarrow> error + entity list option" where
  "index_lookup ev st bi bucketName criteria =
     (if HasIndex bi bucketName then
        (if length criteria = 1 then
           (case GetIndexedKeys bi bucketName (fst (hd criteria)) (snd (hd criteria)) of
              Inl err \<Rightarrow> Inl err
            | Inr (keys, found) \<Rightarrow>
                if found then Inr (Some (fetch ev st bucketName keys)) else Inr None)
         else if 1 < length criteria then
           (case criteria_loop bi bucketName criteria None True of
              Inl err \<Rightarrow> Inl err
            | Inr EarlyEmpty \<Rightarrow> Inr (Some [])
            | Inr (Candidates None) \<Rightarrow> Inr None
            | Inr (Candidates (Some candidateKeys)) \<Rightarrow>
                Inr (Some (fetch ev st bucketName candidateKeys)))
         else Inr None)
      else Inr None)"

subsection \<open>The parallel scan\<close>

text \<open>\<^verbatim>\<open>MatchesCriteria\<close>: every criterion must name a field of the record whose
  value is deeply equal to the expected one.\<close>

fun MatchesCriteria :: "env \<Rightarrow> entity \<Rightarrow> (string \<times> gval) list \<Rightarrow> FieldMatcher \<Rightarrow> error + bool" where
  "MatchesCriteria ev e [] matcher = Inr True"
| "MatchesCriteria ev e ((key, expectedValue) # rest) matcher =
     (case GetFieldValue matcher e key of
        Inl err \<Rightarrow> Inl err
      | Inr None \<Rightarrow> Inr False
      | Inr (Some fieldValue) \<Rightarrow>
          if \<not> DeepEqual ev fieldValue expectedValue then Inr False
          else MatchesCriteria ev e rest matcher)"

text \<open>What a worker does with one value of the work queue: nothing for an empty
  value; otherwise it takes the frame apart (tags 0 and 1 by hand, falling back to
  the whole value when gzip fails), decodes the record, and keeps it when it
  matches.\<close>

definition worker_item ::
  "env \<Rightarrow> (string \<times> gval) list \<Rightarrow> FieldMatcher \<Rightarrow> bytes \<Rightarrow> error + entity option" where
  "worker_item ev criteria matcher data =
     (if length data = 0 then Inr None
      else
        (let actualData =
               (if hd data = 0 \<or> hd data = 1 then
                  (if hd data = 1 then
                     (case gzip_read (env_codecs ev) (tl data) of
                        Some result \<Rightarrow> result
                      | None \<Rightarrow> data)
                   else tl data)
                else DecompressData (env_codecs ev) data)
         in case unmarshal ev actualData of
              None \<Rightarrow> Inr None
            | Some e \<Rightarrow>
                (case MatchesCriteria ev e criteria matcher of
                   Inl err \<Rightarrow> Inl err
                 | Inr True \<Rightarrow> Inr (Some e)
                 | Inr False \<Rightarrow> Inr None)))"

text \<open>
  The scan runs goroutines; what the scheduler and the clock decide is an input:
  for every value in turn, whether a worker took it from the queue before the
  per-item timer fired; which worker took it; in which order the workers
  delivered their buffers; and whether the overall timer fired before the last
  buffer arrived.
\<close>

record schedule =
  handoff_ok :: "nat \<Rightarrow> bool"
  worker_of :: "nat \<Rightarrow> nat"
  finish_order :: "nat list"
  overall_timeout :: bool

datatype producer_error = ErrTimeoutWorkChannel | ErrBucketMissing

text \<open>The producer: the callback of \<^verbatim>\<open>db.ForEach\<close> queues a copy of each value and
  returns an error when the per-item timer fires, which ends the iteration. The
  result is the values that reached the queue, each with its position, and the
  error that \<^verbatim>\<open>ForEach\<close> returns.\<close>

fun produce :: "(nat \<Rightarrow> bool) \<Rightarrow> nat \<Rightarrow> bytes list \<Rightarrow> (nat \<times> bytes) list \<times> producer_error option" where
  "produce ok i [] = ([], None)"
| "produce ok i (v # vs) =
     (if ok i then (case produce ok (i + 1) vs of (queued, err) \<Rightarrow> ((i, v) # queued, err))
      else ([], Some ErrTimeoutWorkChannel))"

definition producer :: "env \<Rightarrow> schedule \<Rightarrow> store \<Rightarrow> string \<Rightarrow> (nat \<times> bytes) list \<times> producer_error option" where
  "producer ev sched st bucketName =
     (case db_ForEach_values ev st bucketName of
        None \<Rightarrow> ([], Some ErrBucketMissing)
      | Some vs \<Rightarrow> produce (handoff_ok sched) 0 vs)"

text \<open>A worker goes through the values it took, in queue order, and collects
  the matches in its own buffer.\<close>

fun worker_run ::
  "env \<Rightarrow> (string \<times> gval) list \<Rightarrow> FieldMatcher \<Rightarrow> bytes list \<Rightarrow> error + entity list" where
  "worker_run ev criteria matcher [] = Inr []"
| "worker_run ev criteria matcher (data # rest) =
     (case worker_item ev criteria matcher data of
        Inl err \<Rightarrow> Inl err
      | Inr r \<Rightarrow>
          (case worker_run ev criteria matcher rest of
             Inl err \<Rightarrow> Inl err
           | Inr localResults \<Rightarrow>
               Inr ((case r of Some e \<Rightarrow> [e] | None \<Rightarrow> []) @ localResults)))"

definition numWorkers :: "env \<Rightarrow> nat" where
  "numWorkers ev = (if 6 < NumCPU ev then 6 else NumCPU ev)"

definition worker_share :: "env \<Rightarrow> schedule \<Rightarrow> (nat \<times> bytes) list \<Rightarrow> nat \<Rightarrow> bytes list" where
  "worker_share ev sched queued w =
     map snd (filter (\<lambda>iv. worker_of sched (fst iv) mod numWorkers ev = w) queued)"

fun collect ::
  "env \<Rightarrow> schedule \<Rightarrow> (string \<times> gval) list \<Rightarrow> FieldMatcher \<Rightarrow> (nat \<times> bytes) list \<Rightarrow> nat list \<Rightarrow>
   error + entity list" where
  "collect ev sched criteria matcher queued [] = Inr []"
| "collect ev sched criteria matcher queued (w # ws) =
     (case worker_run ev criteria matcher (worker_share ev sched queued w) of
        Inl err \<Rightarrow> Inl err
      | Inr localResults \<Rightarrow>
          (case collect ev sched criteria matcher queued ws of
             Inl err \<Rightarrow> Inl err
           | Inr results \<Rightarrow> Inr (localResults @ results)))"

text \<open>
  The scan. The goroutine of the producer calls \<^verbatim>\<open>db.ForEach\<close> as a statement:
  the error it returns is dropped, and the deferred \<^verbatim>\<open>close(workChan)\<close> lets the
  workers finish with what was queued. The caller returns the merged buffers when
  the result channel is closed, and the timeout error when the overall timer
  fires first.
\<close>

definition scan :: "env \<Rightarrow> schedule \<Rightarrow> store \<Rightarrow> string \<Rightarrow> (string \<times> gval) list \<Rightarrow> error + entity list" where
  "scan ev sched st bucketName criteria =
     (let matcher = GetFieldMatcher (constructor ev);
          queued = fst (producer ev sched st bucketName)
      in case collect ev sched criteria matcher queued (finish_order sched) of
           Inl err \<Rightarrow> Inl err
         | Inr results \<Rightarrow>
             if overall_timeout sched then Inl ErrTimeoutResults else Inr results)"

definition FindWhereInDatabase ::
  "env \<Rightarrow> schedule \<Rightarrow> store option \<Rightarrow> indexes \<Rightarrow> string \<Rightarrow> (string \<times> gval) list \<Rightarrow>
   error + entity list" where
  "FindWhereInDatabase ev sched db bi bucketName criteria =
     (case db of
        None \<Rightarrow> Inl ErrDatabaseNotFound
      | Some st \<Rightarrow>
          (case index_lookup ev st bi bucketName criteria of
             Inl err \<Rightarrow> Inl err
           | Inr (Some results) \<Rightarrow> Inr results
           | Inr None \<Rightarrow> scan ev sched st bucketName criteria))"

text \<open>
  For the statements about the criteria loop: the key list that the probe of one
  criterion finds (\<open>None\<close> when it is not found), and the keys shared by the key
  lists of a list of criteria.
\<close>

definition probe_keys :: "indexes \<Rightarrow> string \<Rightarrow> string \<times> gval \<Rightarrow> string list option" where
  "probe_keys bi bucketName c =
     (case GetIndexedKeys bi bucketName (fst c) (snd c) of
        Inl err \<Rightarrow> None
      | Inr (keys, found) \<Rightarrow> if found then Some keys else None)"

definition probe_found :: "indexes \<Rightarrow> string \<Rightarrow> string \<times> gval \<Rightarrow> bool" where
  "probe_found bi bucketName c \<longleftrightarrow> probe_keys bi bucketName c \<noteq> None"

fun common_keys :: "indexes \<Rightarrow> string \<Rightarrow> (string \<times> gval) list \<Rightarrow> string set" where
  "common_keys bi bucketName [] = UNIV"
| "common_keys bi bucketName (c # cs) =
     (case probe_keys bi bucketName c of None \<Rightarrow> {} | Some keys \<Rightarrow> set keys)
       \<inter> common_keys bi bucketName cs"

subsection \<open>Sample records, store and schedule for queries\<close>

text \<open>
  Records of one type with three exported integer fields tagged \<^verbatim>\<open>x\<close>, \<^verbatim>\<open>y\<close> and
  \<^verbatim>\<open>z\<close>. The serialisation is outside the model: the sample decoder knows the
  byte strings of the four records used below and rejects everything else.
\<close>

definition int_field :: "string \<Rightarrow> string \<Rightarrow> int \<Rightarrow> sfield" where
  "int_field name tag n =
     \<lparr>f_name = name, f_json = tag, f_exported = True, f_type = TInt, f_value = Val TInt (DInt n)\<rparr>"

definition xyz_record :: "int \<Rightarrow> int \<Rightarrow> int \<Rightarrow> entity" where
  "xyz_record x y z = [int_field ''X'' ''x'' x, int_field ''Y'' ''y'' y, int_field ''Z'' ''z'' z]"

definition xyz_bytes :: "int \<Rightarrow> int \<Rightarrow> int \<Rightarrow> bytes" where
  "xyz_bytes x y z = [0x7b, of_int x, 0x2c, of_int y, 0x2c, of_int z, 0x7d]"

definition xyz_unmarshal :: "bytes \<Rightarrow> entity option" where
  "xyz_unmarshal data =
     map_of [(xyz_bytes 1 2 0, xyz_record 1 2 0), (xyz_bytes 1 3 0, xyz_record 1 3 0),
             (xyz_bytes 2 2 0, xyz_record 2 2 0), (xyz_bytes 1 2 9, xyz_record 1 2 9)] data"

definition sample_env :: env where
  "sample_env =
     \<lparr>env_codecs = sample_codecs, unmarshal = xyz_unmarshal, DeepEqual = (=),
      constructor = xyz_record 0 0 0, NumCPU = 4\<rparr>"

definition sample_schedule :: schedule where
  "sample_schedule =
     \<lparr>handoff_ok = (\<lambda>i. True), worker_of = (\<lambda>i. i), finish_order = [0, 1, 2, 3],
      overall_timeout = False\<rparr>"

text \<open>Saving records one after the other, as \<^verbatim>\<open>CreateInDatabase\<close> does: the index
  is updated first, then the frame of the serialised record is stored.\<close>

fun index_all :: "string \<Rightarrow> (string \<times> entity) list \<Rightarrow> indexes \<Rightarrow> indexes" where
  "index_all bucketName [] bi = bi"
| "index_all bucketName (ke # rest) bi =
     (case UpdateIndex bucketName (fst ke) (snd ke) bi of
        Inl err \<Rightarrow> bi
      | Inr bi' \<Rightarrow> index_all bucketName rest bi')"

definition stored :: "string \<Rightarrow> int \<Rightarrow> int \<Rightarrow> int \<Rightarrow> string \<times> bytes" where
  "stored key x y z = (key, CompressData sample_codecs (xyz_bytes x y z))"

text \<open>The example of the specification: \<^verbatim>\<open>A:{x:1,y:2}\<close> and \<^verbatim>\<open>B:{x:1,y:3}\<close>.\<close>

definition ab_index :: indexes where
  "ab_index = index_all ''items'' [(''A'', xyz_record 1 2 0), (''B'', xyz_record 1 3 0)] Map.empty"

definition ab_store :: store where
  "ab_store = [''items'' \<mapsto> [stored ''A'' 1 2 0, stored ''B'' 1 3 0]]"

text \<open>A bucket in which \<^verbatim>\<open>A:{x:1,y:3}\<close> and \<^verbatim>\<open>B:{x:2,y:2}\<close> went through the index
  and \<^verbatim>\<open>C:{x:1,y:2,z:9}\<close> was written to the store without it.\<close>

definition abc_index :: indexes where
  "abc_index = index_all ''items'' [(''A'', xyz_record 1 3 0), (''B'', xyz_record 2 2 0)] Map.empty"

definition abc_store :: store where
  "abc_store = [''items'' \<mapsto> [stored ''A'' 1 3 0, stored ''B'' 2 2 0, stored ''C'' 1 2 9]]"


section \<open>Properties of the compression envelope\<close>

subsection \<open>The selection loop\<close>

lemma first_smallest_iff:
  "first_smallest c cands \<longleftrightarrow>
     (\<exists>pre post. cands = pre @ c # post \<and>
        (\<forall>x \<in> set pre. length (frame_of c) < length (frame_of x)) \<and>
        (\<forall>x \<in> set post. length (frame_of c) \<le> length (frame_of x)))"
proof (induction cands)
  case Nil
  then show ?case by simp
next
  case (Cons x xs)
  show ?case
  proof
    assume "first_smallest c (x # xs)"
    then consider
      (here) "x = c" "\<forall>y \<in> set xs. length (frame_of c) \<le> length (frame_of y)"
      | (later) "length (frame_of c) < length (frame_of x)" "first_smallest c xs"
      by auto
    then show "\<exists>pre post. x # xs = pre @ c # post \<and>
        (\<forall>x \<in> set pre. length (frame_of c) < length (frame_of x)) \<and>
        (\<forall>x \<in> set post. length (frame_of c) \<le> length (frame_of x))"
    proof cases
      case here
      then have "x # xs = [] @ c # xs" by simp
      with here show ?thesis by (intro exI conjI) auto
    next
      case later
      with Cons.IH obtain pre post where
        "xs = pre @ c # post"
        "\<forall>x \<in> set pre. length (frame_of c) < length (frame_of x)"
        "\<forall>x \<in> set post. length (frame_of c) \<le> length (frame_of x)"
        by auto
      with later have "x # xs = (x # pre) @ c # post \<and>
        (\<forall>x \<in> set (x # pre). length (frame_of c) < length (frame_of x)) \<and>
        (\<forall>x \<in> set post. length (frame_of c) \<le> length (frame_of x))"
        by simp
      then show ?thesis by blast
    qed
  next
    assume "\<exists>pre post. x # xs = pre @ c # post \<and>
        (\<forall>x \<in> set pre. length (frame_of c) < length (frame_of x)) \<and>
        (\<forall>x \<in> set post. length (frame_of c) \<le> length (frame_of x))"
    then obtain pre post where
      pp: "x # xs = pre @ c # post"
      and pre: "\<forall>x \<in> set pre. length (frame_of c) < length (frame_of x)"
      and post: "\<forall>x \<in> set post. length (frame_of c) \<le> length (frame_of x)"
      by blast
    show "first_smallest c (x # xs)"
    proof (cases pre)
      case Nil
      with pp post show ?thesis by auto
    next
      case (Cons p pre')
      with pp have "x = p" "xs = pre' @ c # post" by auto
      with pre Cons Cons.IH post show ?thesis by auto
    qed
  qed
qed

lemma first_smallestI:
  "cands = pre @ c # post \<Longrightarrow>
   \<forall>x \<in> set pre. length (frame_of c) < length (frame_of x) \<Longrightarrow>
   \<forall>x \<in> set post. length (frame_of c) \<le> length (frame_of x) \<Longrightarrow>
   first_smallest c cands"
  unfolding first_smallest_iff by blast

lemma try_compressors_first_smallest:
  "try_compressors tbl data (best, bt) = (r, rt) \<Longrightarrow>
   first_smallest (rt, r) ((bt, best) # tried tbl data)"
proof (induction tbl arbitrary: best bt)
  case Nil
  then show ?case by simp
next
  case (Cons a tbl)
  obtain cid compf where a: "a = (cid, compf)" by (cases a)
  show ?case
  proof (cases "compf data")
    case None
    with Cons a show ?thesis by simp
  next
    case (Some c)
    show ?thesis
    proof (cases "length c < length best")
      case True
      with Cons.prems a Some
      have "try_compressors tbl data (c, cid) = (r, rt)" by simp
      from Cons.IH [OF this] obtain pre post where
        pp: "(cid, c) # tried tbl data = pre @ (rt, r) # post"
        and pre: "\<forall>x \<in> set pre. length (frame_of (rt, r)) < length (frame_of x)"
        and post: "\<forall>x \<in> set post. length (frame_of (rt, r)) \<le> length (frame_of x)"
        by (auto simp: first_smallest_iff)
      have "(cid, c) \<in> set (pre @ (rt, r) # post)"
        using pp by (metis list.set_intros(1))
      then have "length (frame_of (rt, r)) \<le> length (frame_of (cid, c))"
        using pre post by (auto simp: less_imp_le)
      then have lt: "length (frame_of (rt, r)) < length (frame_of (bt, best))"
        using True by (simp add: frame_of_def)
      have "(bt, best) # tried (a # tbl) data = ((bt, best) # pre) @ (rt, r) # post"
        using pp a Some by simp
      then show ?thesis
        by (rule first_smallestI) (use lt pre post in auto)
    next
      case False
      with Cons.prems a Some
      have "try_compressors tbl data (best, bt) = (r, rt)" by simp
      from Cons.IH [OF this] obtain pre post where
        pp: "(bt, best) # tried tbl data = pre @ (rt, r) # post"
        and pre: "\<forall>x \<in> set pre. length (frame_of (rt, r)) < length (frame_of x)"
        and post: "\<forall>x \<in> set post. length (frame_of (rt, r)) \<le> length (frame_of x)"
        by (auto simp: first_smallest_iff)
      show ?thesis
      proof (cases pre)
        case Nil
        with pp have eq: "(rt, r) = (bt, best)" and tl: "tried tbl data = post" by auto
        have le: "length (frame_of (rt, r)) \<le> length (frame_of (cid, c))"
          using False eq by (simp add: frame_of_def)
        have "(bt, best) # tried (a # tbl) data = [] @ (rt, r) # ((cid, c) # post)"
          using eq tl a Some by simp
        then show ?thesis
          by (rule first_smallestI) (use post le in auto)
      next
        case (Cons p pre')
        with pp have p: "p = (bt, best)" and tl: "tried tbl data = pre' @ (rt, r) # post"
          by auto
        have "length (frame_of (rt, r)) < length (frame_of (bt, best))"
          using pre Cons p by simp
        then have "length (frame_of (rt, r)) < length (frame_of (cid, c))"
          using False by (simp add: frame_of_def)
        then have "\<forall>x \<in> set ((bt, best) # (cid, c) # pre').
                     length (frame_of (rt, r)) < length (frame_of x)"
          using pre Cons p by simp
        moreover
        have "(bt, best) # tried (a # tbl) data
                = ((bt, best) # (cid, c) # pre') @ (rt, r) # post"
          using tl a Some by simp
        ultimately show ?thesis
          using post first_smallestI by blast
      qed
    qed
  qed
qed

lemma try_compressors_origin:
  "try_compressors tbl data (best, bt) = (r, rt) \<Longrightarrow>
   (r = best \<and> rt = bt) \<or> (\<exists>compf. (rt, compf) \<in> set tbl \<and> compf data = Some r)"
proof (induction tbl arbitrary: best bt)
  case Nil
  then show ?case by simp
next
  case (Cons a tbl)
  obtain cid compf where a: "a = (cid, compf)" by (cases a)
  show ?case
  proof (cases "compf data")
    case None
    with Cons.prems a have "try_compressors tbl data (best, bt) = (r, rt)" by simp
    from Cons.IH [OF this] show ?thesis by auto
  next
    case (Some c)
    show ?thesis
    proof (cases "length c < length best")
      case True
      with Cons.prems a Some have "try_compressors tbl data (c, cid) = (r, rt)" by simp
      from Cons.IH [OF this] a Some show ?thesis by auto
    next
      case False
      with Cons.prems a Some have "try_compressors tbl data (best, bt) = (r, rt)" by simp
      from Cons.IH [OF this] show ?thesis by auto
    qed
  qed
qed

lemma try_compressors_length:
  "try_compressors tbl data (best, bt) = (r, rt) \<Longrightarrow> length r \<le> length best"
proof (induction tbl arbitrary: best bt)
  case Nil
  then show ?case by simp
next
  case (Cons a tbl)
  obtain cid compf where a: "a = (cid, compf)" by (cases a)
  from Cons.prems a show ?case
    by (auto split: option.splits if_splits dest!: Cons.IH)
qed

lemma try_compressors_strict:
  "try_compressors tbl data (best, bt) = (r, rt) \<Longrightarrow>
   (r = best \<and> rt = bt) \<or>
   (length r < length best \<and> (\<exists>compf. (rt, compf) \<in> set tbl \<and> compf data = Some r))"
proof (induction tbl arbitrary: best bt)
  case Nil
  then show ?case by simp
next
  case (Cons a tbl)
  obtain cid compf where a: "a = (cid, compf)" by (cases a)
  show ?case
  proof (cases "compf data")
    case None
    with Cons.prems a have "try_compressors tbl data (best, bt) = (r, rt)" by simp
    from Cons.IH [OF this] show ?thesis by auto
  next
    case (Some c)
    show ?thesis
    proof (cases "length c < length best")
      case True
      with Cons.prems a Some have "try_compressors tbl data (c, cid) = (r, rt)" by simp
      from Cons.IH [OF this] a Some True show ?thesis by auto
    next
      case False
      with Cons.prems a Some have "try_compressors tbl data (best, bt) = (r, rt)" by simp
      from Cons.IH [OF this] show ?thesis by auto
    qed
  qed
qed

lemmas codec_ids = None_codec_def Gzip_def Zlib_def Flate_def LZW_def

lemma CompressData_with_cases:
  "CompressData_with tbl b = None_codec # b \<or>
   (threshold \<le> length b \<and>
    (\<exists>cid compf c. (cid, compf) \<in> set tbl \<and> compf b = Some c \<and> length c < length b \<and>
        CompressData_with tbl b = cid # c))"
proof (cases "length b < threshold")
  case True
  then show ?thesis by (simp add: CompressData_with_def)
next
  case False
  obtain r rt where t: "try_compressors tbl b (b, None_codec) = (r, rt)"
    by (cases "try_compressors tbl b (b, None_codec)")
  from try_compressors_strict [OF t] False t show ?thesis
    by (auto simp: CompressData_with_def)
qed








subsection \<open>The sample codecs on the sample input\<close>

lemmas lzw_write_eval = go_lzw_write_def newWriter_def write_code_def writeLSB_def writeMSB_def
  flushLSB.simps flushMSB.simps incHi_def close_writer_def maxCode_def Let_def

lemmas lzw_read_eval = go_lzw_read_def newReader_def readLSB_def readMSB_def
  fillLSB.simps fillMSB.simps decode.simps expand.simps advance_def save_hi_def
  maxWidth_def decoderInvalidCode_def Let_def

lemma sample_data_eq:
  "sample_data = [97, 97, 97, 97, 97, 97, 97, 97, 97, 97, 97, 97, 97, 97, 97, 97, 97, 97, 97, 97, 97, 97, 97, 97, 97, 97, 97, 97, 97, 97, 97, 97, 97, 97, 97, 97, 97, 97, 97, 97, 97, 97, 97, 97, 97, 97, 97, 97, 97, 97]"
  by (simp add: sample_data_def eval_nat_numeral)

lemma length_sample_data: "length sample_data = 50"
  by (simp add: sample_data_def)

lemma lzw_write_sample:
  "go_lzw_write LSB 8 sample_data =
     Some [0, 195, 8, 28, 72, 176, 160, 193, 131, 8, 19, 22, 12, 8]"
  unfolding sample_data_eq by (simp add: lzw_write_eval)




lemma tried_sample:
  "tried (compressors sample_codecs) sample_data =
     [(Gzip, [0x1f, 0x8b, 0x08] @ sample_data), (Zlib, [0x78, 0x9c] @ sample_data),
      (Flate, [0x01] @ sample_data),
      (LZW, [0, 195, 8, 28, 72, 176, 160, 193, 131, 8, 19, 22, 12, 8])]"
  by (simp add: compressors_def compressGzip_def compressZlib_def compressFlate_def
      compressLZW_def sample_codecs_def stored_write_def lzw_write_sample)

lemma CompressData_sample:
  "CompressData sample_codecs sample_data =
     [4, 0, 195, 8, 28, 72, 176, 160, 193, 131, 8, 19, 22, 12, 8]"
  by (simp add: CompressData_def CompressData_with_def threshold_def length_sample_data
      compressors_def compressGzip_def compressZlib_def compressFlate_def
      compressLZW_def sample_codecs_def stored_write_def lzw_write_sample codec_ids)


subsection \<open>Round trip, selection and bounds\<close>





text \<open>
  C10. The frame that \<^verbatim>\<open>CompressData\<close> returns is never empty, its tag is at most
  4, and it is at most one byte longer than the input: it is either the input
  behind the tag 0, or the output of one of the four codecs behind its tag, and
  then the codec's output is strictly shorter than the input. This holds for the
  table order of both copies of the package.
\<close>

theorem CompressData_frame_bounds:
  "CompressData cs b \<noteq> [] \<and> hd (CompressData cs b) \<le> 4 \<and>
   length (CompressData cs b) \<le> length b + 1 \<and>
   (CompressData cs b = None_codec # b \<or>
    hd (CompressData cs b) \<in> {Gzip, Zlib, Flate, LZW} \<and>
    length (CompressData cs b) \<le> length b) \<and>
   CompressData_part002 cs b \<noteq> [] \<and> hd (CompressData_part002 cs b) \<le> 4 \<and>
   length (CompressData_part002 cs b) \<le> length b + 1 \<and>
   (CompressData_part002 cs b = None_codec # b \<or>
    hd (CompressData_part002 cs b) \<in> {Gzip, Zlib, Flate, LZW} \<and>
    length (CompressData_part002 cs b) \<le> length b)"
proof -
  have *: "f \<noteq> [] \<and> hd f \<le> 4 \<and> length f \<le> length b + 1 \<and>
           (f = None_codec # b \<or> hd f \<in> {Gzip, Zlib, Flate, LZW} \<and> length f \<le> length b)"
    if f: "f = CompressData_with tbl b" and tbl: "fst ` set tbl \<subseteq> {Gzip, Zlib, Flate, LZW}"
    for f tbl
  proof -
    from CompressData_with_cases [of tbl b]
    consider (raw) "f = None_codec # b"
      | (comp) cid compf c where "(cid, compf) \<in> set tbl" "length c < length b" "f = cid # c"
      unfolding f by blast
    then show ?thesis
    proof cases
      case raw
      then show ?thesis by (simp add: None_codec_def)
    next
      case comp
      from comp(1) tbl have cid: "cid \<in> {Gzip, Zlib, Flate, LZW}" by force
      then have "cid \<le> 4" by (auto simp: codec_ids)
      with comp cid show ?thesis by simp
    qed
  qed
  have "fst ` set (compressors cs) \<subseteq> {Gzip, Zlib, Flate, LZW}"
    "fst ` set (compressors_part002 cs) \<subseteq> {Gzip, Zlib, Flate, LZW}"
    by (auto simp: compressors_def compressors_part002_def)
  with * [of "CompressData cs b" "compressors cs"]
    * [of "CompressData_part002 cs b" "compressors_part002 cs"]
  show ?thesis
    unfolding CompressData_def CompressData_part002_def by blast
qed

lemma CompressData_with_first_smallest:
  assumes "threshold \<le> length b"
  shows "\<exists>c. first_smallest c ((None_codec, b) # tried tbl b) \<and>
             CompressData_with tbl b = frame_of c"
proof -
  obtain r rt where t: "try_compressors tbl b (b, None_codec) = (r, rt)"
    by (cases "try_compressors tbl b (b, None_codec)")
  from try_compressors_first_smallest [OF t]
  have "first_smallest (rt, r) ((None_codec, b) # tried tbl b)" .
  moreover have "CompressData_with tbl b = frame_of (rt, r)"
    using assms t by (simp add: CompressData_with_def frame_of_def)
  ultimately show ?thesis by blast
qed

text \<open>
  C5. Below the threshold of 50 bytes \<^verbatim>\<open>CompressData\<close> returns the input behind
  the tag 0, a frame one byte longer than the input. From the threshold on, the
  frame is the first smallest of the options tried: the raw framing, then the
  frame of every codec of the table that returned without error, in table order;
  every option tried before the chosen one is strictly longer, every option
  tried after it is at least as long. This holds for the table order of both
  copies of the package.
\<close>

theorem CompressData_selection:
  "(length b < threshold \<longrightarrow>
      CompressData cs b = None_codec # b \<and> length (CompressData cs b) = length b + 1 \<and>
      CompressData_part002 cs b = None_codec # b) \<and>
   (threshold \<le> length b \<longrightarrow>
      (\<exists>c. first_smallest c ((None_codec, b) # tried (compressors cs) b) \<and>
           CompressData cs b = frame_of c) \<and>
      (\<exists>c. first_smallest c ((None_codec, b) # tried (compressors_part002 cs) b) \<and>
           CompressData_part002 cs b = frame_of c))"
proof (intro conjI impI)
  assume "length b < threshold"
  then show "CompressData cs b = None_codec # b"
    "length (CompressData cs b) = length b + 1"
    "CompressData_part002 cs b = None_codec # b"
    by (simp_all add: CompressData_def CompressData_part002_def CompressData_with_def)
next
  assume "threshold \<le> length b"
  then show "\<exists>c. first_smallest c ((None_codec, b) # tried (compressors cs) b) \<and>
           CompressData cs b = frame_of c"
    "\<exists>c. first_smallest c ((None_codec, b) # tried (compressors_part002 cs) b) \<and>
           CompressData_part002 cs b = frame_of c"
    unfolding CompressData_def CompressData_part002_def
    by (rule CompressData_with_first_smallest)+
qed

theorem CompressData_selection_witness:
  "threshold \<le> length sample_data \<and>
   first_smallest (LZW, [0, 195, 8, 28, 72, 176, 160, 193, 131, 8, 19, 22, 12, 8])
     ((None_codec, sample_data) # tried (compressors sample_codecs) sample_data) \<and>
   CompressData sample_codecs sample_data =
     frame_of (LZW, [0, 195, 8, 28, 72, 176, 160, 193, 131, 8, 19, 22, 12, 8]) \<and>
   length [] < threshold \<and> CompressData sample_codecs [] = [None_codec]"
proof -
  have h: "threshold \<le> length sample_data"
    by (simp add: threshold_def length_sample_data)
  have fs: "first_smallest (LZW, [0, 195, 8, 28, 72, 176, 160, 193, 131, 8, 19, 22, 12, 8])
     ((None_codec, sample_data) # tried (compressors sample_codecs) sample_data)"
    by (simp add: tried_sample frame_of_def length_sample_data)
  have short: "length ([] :: bytes) < threshold" by (simp add: threshold_def)
  from CompressData_selection [of sample_data sample_codecs] h
  obtain c where "CompressData sample_codecs sample_data = frame_of c" by blast
  from CompressData_selection [of "[]" sample_codecs] short
  have "CompressData sample_codecs [] = [None_codec]" by blast
  with h fs short show ?thesis
    by (simp add: CompressData_sample frame_of_def LZW_def)
qed


theorem CompressData_frame_bounds_witness:
  "CompressData sample_codecs sample_data \<noteq> [] \<and>
   hd (CompressData sample_codecs sample_data) = LZW \<and>
   length (CompressData sample_codecs sample_data) = 15 \<and>
   length sample_data + 1 = 51"
  using CompressData_frame_bounds [of sample_codecs sample_data]
  by (simp add: CompressData_sample length_sample_data LZW_def)

subsection \<open>Frames that fail to decode\<close>



subsection \<open>The LZW frame\<close>

lemma lzw_write_msb_a: "go_lzw_write MSB 8 [0x61] = Some [0x80, 0x18, 0x60, 0x20]"
  by (simp add: lzw_write_eval)

lemma lzw_read_lsb_of_msb_a: "go_lzw_read LSB 8 [0x80, 0x18, 0x60, 0x20] = None"
  by (simp add: lzw_read_eval)

lemma lzw_write_lsb_a: "go_lzw_write LSB 8 [0x61] = Some [0x00, 0xc3, 0x04, 0x04]"
  by (simp add: lzw_write_eval)

lemma lzw_read_lsb_a: "go_lzw_read LSB 8 [0x00, 0xc3, 0x04, 0x04] = Some [0x61]"
  by (simp add: lzw_read_eval)

text \<open>
  C8, as the specification states it, fails: the one-byte payload \<^verbatim>\<open>61\<close>, encoded
  with MSB-first LZW of literal width 8, is \<^verbatim>\<open>80 18 60 20\<close>; behind the tag 4,
  \<^verbatim>\<open>DecompressData\<close> reads it LSB-first, fails, and returns something else than
  the payload.
\<close>

theorem lzw_msb_frame_counterexample:
  "lzw_write sample_codecs MSB 8 [0x61] = Some [0x80, 0x18, 0x60, 0x20] \<and>
   DecompressData sample_codecs (LZW # [0x80, 0x18, 0x60, 0x20]) \<noteq> [0x61]"
  by (simp add: DecompressData_def codec_ids sample_codecs_def lzw_write_msb_a
      lzw_read_lsb_of_msb_a)

text \<open>
  C8, amended. A tag-4 payload is written and read as LZW with LSB-first bit
  order and literal width 8: \<^verbatim>\<open>compressLZW\<close> is the LSB-first writer of width 8;
  \<^verbatim>\<open>DecompressData\<close> gives every tag-4 frame to the LSB-first reader of width 8
  and returns what it read (the whole frame when it fails); so whenever that
  reader reads back what that writer produced for a payload, the LSB-first
  encoding behind the tag 4 decodes to the payload.
\<close>

theorem lzw_lsb_frame:
  "compressLZW cs p = lzw_write cs LSB 8 p \<and>
   DecompressData cs (LZW # c) =
     (case lzw_read cs LSB 8 c of Some r \<Rightarrow> r | None \<Rightarrow> LZW # c) \<and>
   (reads_back (lzw_write cs LSB 8) (lzw_read cs LSB 8) p \<longrightarrow>
      (case compressLZW cs p of
         Some c' \<Rightarrow> DecompressData cs (LZW # c') = p
       | None \<Rightarrow> True))"
  by (auto simp: compressLZW_def DecompressData_def codec_ids reads_back_def
      split: option.splits)

theorem lzw_lsb_frame_witness:
  "reads_back (lzw_write sample_codecs LSB 8) (lzw_read sample_codecs LSB 8) [0x61] \<and>
   compressLZW sample_codecs [0x61] = Some [0x00, 0xc3, 0x04, 0x04] \<and>
   DecompressData sample_codecs (LZW # [0x00, 0xc3, 0x04, 0x04]) = [0x61]"
proof -
  have rb: "reads_back (lzw_write sample_codecs LSB 8) (lzw_read sample_codecs LSB 8) [0x61]"
    by (simp add: reads_back_def sample_codecs_def lzw_write_lsb_a lzw_read_lsb_a)
  have w: "compressLZW sample_codecs [0x61] = Some [0x00, 0xc3, 0x04, 0x04]"
    by (simp add: compressLZW_def sample_codecs_def lzw_write_lsb_a)
  from lzw_lsb_frame [of sample_codecs "[0x61]" "[]"] rb w
  have "DecompressData sample_codecs (LZW # [0x00, 0xc3, 0x04, 0x04]) = [0x61]" by simp
  with rb w show ?thesis by simp
qed

section \<open>Properties of the secondary index\<close>

subsection \<open>Hashable values are map keys\<close>

lemma isTypeHashable_comparable: "isTypeHashable t \<Longrightarrow> comparableType t"
  by (induction t) auto

lemma isHashable_mapKeyOK: "isHashable v \<Longrightarrow> mapKeyOK v"
  by (cases v) (auto dest: isTypeHashable_comparable)

subsection \<open>Entries\<close>

lemma GetIndexedKeys_entry:
  "mapKeyOK v \<Longrightarrow>
   GetIndexedKeys bi b fn v =
     Inr (case entry bi b fn v of None \<Rightarrow> ([], False) | Some ks \<Rightarrow> (ks, True))"
  by (simp add: GetIndexedKeys_def entry_def bentry_def split: option.splits)

lemma index_inv_entry:
  "index_inv bi \<longleftrightarrow>
     (\<forall>b fn v ks. entry bi b fn v = Some ks \<longrightarrow> ks \<noteq> [] \<and> distinct ks)"
  unfolding index_inv_def entry_def bentry_def
  by (auto split: option.splits) blast+

lemma add_key_idem: "add_key key (Some (add_key key en)) = add_key key en"
  by (auto simp: add_key_def split: option.splits)

lemma add_key_props:
  "key \<in> set (add_key key en)" "add_key key en \<noteq> []"
  by (auto simp: add_key_def split: option.splits)

lemma add_key_distinct:
  "(\<And>ks. en = Some ks \<Longrightarrow> distinct ks) \<Longrightarrow> distinct (add_key key en)"
  by (auto simp: add_key_def split: option.splits)


lemma update_field_entry:
  "update_field key e m f bx = Inr bx' \<Longrightarrow>
   bentry bx' fn v =
     (if fn = indexName f \<and> GetFieldValue m e fn = Inr (Some v) \<and> isHashable v
      then Some (add_key key (bentry bx fn v)) else bentry bx fn v)"
  unfolding update_field_def Let_def bentry_def add_key_def
  by (auto split: sum.splits option.splits if_splits)

lemma update_fields_entry:
  "update_fields key e m fs bx = Inr bx' \<Longrightarrow>
   bentry bx' fn v =
     (if fn \<in> indexName ` set fs \<and> GetFieldValue m e fn = Inr (Some v) \<and> isHashable v
      then Some (add_key key (bentry bx fn v)) else bentry bx fn v)"
proof (induction fs arbitrary: bx)
  case Nil
  then show ?case by simp
next
  case (Cons f fs)
  from Cons.prems obtain bx1 where
    s1: "update_field key e m f bx = Inr bx1" and
    s2: "update_fields key e m fs bx1 = Inr bx'"
    by (auto split: sum.splits)
  show ?case
    unfolding Cons.IH [OF s2] update_field_entry [OF s1]
    by (auto simp: add_key_idem)
qed

lemma UpdateIndex_entry:
  "UpdateIndex b key e bi = Inr bi' \<Longrightarrow>
   entry bi' b' fn v =
     (if b' = b \<and> fn \<in> indexName ` set e \<and>
         GetFieldValue (GetFieldMatcher e) e fn = Inr (Some v) \<and> isHashable v
      then Some (add_key key (entry bi b fn v)) else entry bi b' fn v)"
proof -
  assume up: "UpdateIndex b key e bi = Inr bi'"
  define bx where "bx = (case bi b of None \<Rightarrow> Map.empty | Some x \<Rightarrow> x)"
  from up obtain bx' where
    fs: "update_fields key e (GetFieldMatcher e) e bx = Inr bx'" and
    bi': "bi' = bi(b \<mapsto> bx')"
    by (auto simp: UpdateIndex_def Let_def bx_def split: sum.splits)
  have old: "bentry bx fn v = entry bi b fn v"
    by (simp add: bx_def entry_def bentry_def split: option.splits)
  show ?thesis
    using update_fields_entry [OF fs, of fn v] old
    by (simp add: bi' entry_def)
qed


lemma UpdateIndex_inv:
  assumes "index_inv bi" "UpdateIndex b key e bi = Inr bi'"
  shows "index_inv bi'"
  unfolding index_inv_entry
proof (intro allI impI)
  fix b' fn v ks
  assume "entry bi' b' fn v = Some ks"
  with UpdateIndex_entry [OF assms(2), of b' fn v]
  consider "ks = add_key key (entry bi b fn v)" | "entry bi b' fn v = Some ks"
    by (auto split: if_splits)
  then show "ks \<noteq> [] \<and> distinct ks"
  proof cases
    case 1
    with assms(1) show ?thesis
      by (auto simp: index_inv_entry add_key_props intro!: add_key_distinct)
  next
    case 2
    with assms(1) show ?thesis by (auto simp: index_inv_entry)
  qed
qed


lemma del_key_idem:
  "(\<And>ks. en = Some ks \<Longrightarrow> distinct ks) \<Longrightarrow> del_key key (del_key key en) = del_key key en"
  by (auto simp: del_key_def remove1_idem split: option.splits)

lemma del_key_props:
  "(\<And>ks. en = Some ks \<Longrightarrow> distinct ks) \<Longrightarrow> del_key key en = Some ks' \<Longrightarrow>
   key \<notin> set ks' \<and> ks' \<noteq> [] \<and> distinct ks'"
  by (auto simp: del_key_def split: option.splits if_splits)

lemma remove_field_entry:
  "remove_field key e m f bx = Inr bx' \<Longrightarrow>
   bentry bx' fn v =
     (if fn = indexName f \<and> GetFieldValue m e fn = Inr (Some v) \<and> isHashable v
      then del_key key (bentry bx fn v) else bentry bx fn v)"
  unfolding remove_field_def Let_def bentry_def del_key_def
  by (auto split: sum.splits option.splits if_splits)



lemma bx_distinctD: "bx_distinct bx \<Longrightarrow> bentry bx fn v = Some ks \<Longrightarrow> distinct ks"
  unfolding bx_distinct_def by blast

lemma del_key_SomeD:
  "del_key key en = Some ks \<Longrightarrow> \<exists>ks0. en = Some ks0 \<and> ks = remove1 key ks0"
  by (cases en) (simp_all add: del_key_def split: if_splits)

lemma remove_field_distinct:
  assumes "bx_distinct bx" "remove_field key e m f bx = Inr bx'"
  shows "bx_distinct bx'"
  unfolding bx_distinct_def
proof (intro allI impI)
  fix fn v ks
  assume a: "bentry bx' fn v = Some ks"
  show "distinct ks"
  proof (cases "fn = indexName f \<and> GetFieldValue m e fn = Inr (Some v) \<and> isHashable v")
    case True
    have "bentry bx' fn v = del_key key (bentry bx fn v)"
      unfolding remove_field_entry [OF assms(2), of fn v] by (rule if_P) (rule True)
    with a have "del_key key (bentry bx fn v) = Some ks" by simp
    then obtain ks0 where "bentry bx fn v = Some ks0" "ks = remove1 key ks0"
      using del_key_SomeD by blast
    with bx_distinctD [OF assms(1)] show ?thesis by simp
  next
    case False
    have "bentry bx' fn v = bentry bx fn v"
      unfolding remove_field_entry [OF assms(2), of fn v] by (rule if_not_P) (rule False)
    with a have "bentry bx fn v = Some ks" by simp
    with bx_distinctD [OF assms(1)] show ?thesis by simp
  qed
qed

lemma remove_fields_entry:
  "bx_distinct bx \<Longrightarrow> remove_fields key e m fs bx = Inr bx' \<Longrightarrow>
   bentry bx' fn v =
     (if fn \<in> indexName ` set fs \<and> GetFieldValue m e fn = Inr (Some v) \<and> isHashable v
      then del_key key (bentry bx fn v) else bentry bx fn v)"
proof (induction fs arbitrary: bx)
  case Nil
  then show ?case by simp
next
  case (Cons f fs)
  from Cons.prems(2) obtain bx1 where
    s1: "remove_field key e m f bx = Inr bx1" and
    s2: "remove_fields key e m fs bx1 = Inr bx'"
    by (cases "remove_field key e m f bx") simp_all
  have d1: "bx_distinct bx1"
    using remove_field_distinct [OF Cons.prems(1) s1] .
  have idem: "del_key key (del_key key (bentry bx fn v)) = del_key key (bentry bx fn v)"
    by (rule del_key_idem) (rule bx_distinctD [OF Cons.prems(1)])
  let ?c = "GetFieldValue m e fn = Inr (Some v) \<and> isHashable v"
  have step1: "bentry bx1 fn v =
     (if fn = indexName f \<and> ?c then del_key key (bentry bx fn v) else bentry bx fn v)"
    using remove_field_entry [OF s1, of fn v] by simp
  have step2: "bentry bx' fn v =
     (if fn \<in> indexName ` set fs \<and> ?c then del_key key (bentry bx1 fn v) else bentry bx1 fn v)"
    using Cons.IH [OF d1 s2] by simp
  show ?case
  proof (cases ?c)
    case False
    with step1 step2 show ?thesis by auto
  next
    case c: True
    show ?thesis
    proof (cases "fn = indexName f")
      case True
      with c step1 step2 idem show ?thesis by auto
    next
      case False
      with c step1 step2 show ?thesis by auto
    qed
  qed
qed

lemma RemoveFromIndex_entry:
  assumes "index_inv bi" "RemoveFromIndex b key e bi = Inr bi'"
  shows "entry bi' b' fn v =
     (if b' = b \<and> fn \<in> indexName ` set e \<and>
         GetFieldValue (GetFieldMatcher e) e fn = Inr (Some v) \<and> isHashable v
      then del_key key (entry bi b fn v) else entry bi b' fn v)"
proof (cases "bi b")
  case None
  with assms(2) have "bi' = bi" by (simp add: RemoveFromIndex_def)
  with None show ?thesis by (simp add: entry_def del_key_def)
next
  case (Some bx)
  with assms(2) obtain bx' where
    fs: "remove_fields key e (GetFieldMatcher e) e bx = Inr bx'" and
    bi': "bi' = bi(b \<mapsto> bx')"
    by (cases "remove_fields key e (GetFieldMatcher e) e bx")
       (simp_all add: RemoveFromIndex_def)
  have old: "bentry bx fn' v' = entry bi b fn' v'" for fn' v'
    using Some by (simp add: entry_def)
  have d: "bx_distinct bx"
    unfolding bx_distinct_def
  proof (intro allI impI)
    fix fn' v' ks
    assume "bentry bx fn' v' = Some ks"
    then have "entry bi b fn' v' = Some ks" by (simp add: old)
    with assms(1) show "distinct ks" unfolding index_inv_entry by blast
  qed
  have "bentry bx' fn v =
     (if fn \<in> indexName ` set e \<and>
         GetFieldValue (GetFieldMatcher e) e fn = Inr (Some v) \<and> isHashable v
      then del_key key (bentry bx fn v) else bentry bx fn v)"
    by (rule remove_fields_entry [OF d fs])
  then show ?thesis
    by (simp add: bi' entry_def old)
qed


lemma remove1_add_key:
  "(\<And>ks. en = Some ks \<Longrightarrow> distinct ks) \<Longrightarrow>
   key \<notin> set (remove1 key (add_key key en))"
  by (auto simp: add_key_def split: option.splits)


lemma remove_after_update:
  assumes "index_inv bi"
    and "UpdateIndex b key r bi = Inr bi1"
    and "RemoveFromIndex b key r bi1 = Inr bi2"
    and "f \<in> set r"
    and "GetFieldValue (GetFieldMatcher r) r (indexName f) = Inr (Some v)"
    and "isHashable v"
  shows "\<exists>keys1. GetIndexedKeys bi1 b (indexName f) v = Inr (keys1, True) \<and>
           key \<in> set keys1 \<and> key \<notin> set (remove1 key keys1) \<and>
           GetIndexedKeys bi2 b (indexName f) v =
             (if remove1 key keys1 = [] then Inr ([], False)
              else Inr (remove1 key keys1, True))"
proof -
  let ?fn = "indexName f"
  let ?ks = "add_key key (entry bi b ?fn v)"
  have inv1: "index_inv bi1"
    using UpdateIndex_inv [OF assms(1,2)] .
  have e1: "entry bi1 b ?fn v = Some ?ks"
    using UpdateIndex_entry [OF assms(2), of b ?fn v] assms(4,5,6) by simp
  have e2: "entry bi2 b ?fn v = del_key key (Some ?ks)"
    using RemoveFromIndex_entry [OF inv1 assms(3), of b ?fn v] assms(4,5,6) e1 by simp
  have ok: "mapKeyOK v" using assms(6) by (rule isHashable_mapKeyOK)
  have g1: "GetIndexedKeys bi1 b ?fn v = Inr (?ks, True)"
    by (simp add: GetIndexedKeys_entry ok e1)
  have g2: "GetIndexedKeys bi2 b ?fn v =
              (if remove1 key ?ks = [] then Inr ([], False) else Inr (remove1 key ?ks, True))"
    by (simp add: GetIndexedKeys_entry ok e2 del_key_def)
  have "key \<notin> set (remove1 key ?ks)"
    using assms(1) by (intro remove1_add_key) (auto simp: index_inv_entry)
  with g1 g2 show ?thesis by (auto simp: add_key_props)
qed

lemma unhashable_declared_type:
  "wf_field f \<Longrightarrow> f_type f \<noteq> TInterface \<Longrightarrow> \<not> isTypeHashable (f_type f) \<Longrightarrow>
   \<not> isHashable (f_value f)"
  by (cases "f_value f") (auto simp: wf_field_def)

lemma unhashable_untouched:
  assumes "UpdateIndex b key r bi = Inr bi'"
    and "GetFieldValue (GetFieldMatcher r) r fn = Inr (Some v)"
    and "\<not> isHashable v"
    and "mapKeyOK probe"
  shows "GetIndexedKeys bi' b fn probe = GetIndexedKeys bi b fn probe \<and>
         (bi b = None \<longrightarrow> GetIndexedKeys bi' b fn probe = Inr ([], False)) \<and>
         (\<forall>f. wf_field f \<and> f_type f \<noteq> TInterface \<and> \<not> isTypeHashable (f_type f)
               \<longrightarrow> \<not> isHashable (f_value f))"
proof -
  have "entry bi' b fn probe = entry bi b fn probe"
    using UpdateIndex_entry [OF assms(1), of b fn probe] assms(2,3) by auto
  then have "GetIndexedKeys bi' b fn probe = GetIndexedKeys bi b fn probe"
    using assms(4) by (simp add: GetIndexedKeys_entry)
  moreover have "bi b = None \<longrightarrow> GetIndexedKeys bi b fn probe = Inr ([], False)"
    by (simp add: GetIndexedKeys_def)
  ultimately show ?thesis
    using unhashable_declared_type by auto
qed


subsection \<open>When the index functions return\<close>

lemma matcher_loop_range:
  "(JsonMap (matcher_loop fs i m) k = Some idx \<longrightarrow>
      JsonMap m k = Some idx \<or> (i \<le> idx \<and> idx < i + length fs)) \<and>
   (FieldMap (matcher_loop fs i m) k = Some idx \<longrightarrow>
      FieldMap m k = Some idx \<or> (i \<le> idx \<and> idx < i + length fs))"
proof (induction fs arbitrary: i m)
  case Nil
  then show ?case by simp
next
  case (Cons f fs)
  let ?m = "m\<lparr>FieldMap := (FieldMap m)(f_name f \<mapsto> i),
              JsonMap := (case jsonTagName (f_json f) of
                            Some t \<Rightarrow> (JsonMap m)(t \<mapsto> i)
                          | None \<Rightarrow> JsonMap m)\<rparr>"
  have j: "JsonMap ?m k = Some idx \<Longrightarrow> JsonMap m k = Some idx \<or> idx = i"
    by (auto split: option.splits if_splits)
  have f: "FieldMap ?m k = Some idx \<Longrightarrow> FieldMap m k = Some idx \<or> idx = i"
    by (auto split: if_splits)
  from Cons.IH [of "i + 1" ?m] j f show ?case
    by (simp del: fun_upd_apply) (metis Suc_leD le_refl less_add_Suc1 add_Suc_right)
qed

lemma GetFieldMatcher_range:
  "JsonMap (GetFieldMatcher e) k = Some idx \<Longrightarrow> idx < length e"
  "FieldMap (GetFieldMatcher e) k = Some idx \<Longrightarrow> idx < length e"
  using matcher_loop_range [of e 0 "\<lparr>FieldMap = Map.empty, JsonMap = Map.empty\<rparr>" k idx]
  by (auto simp: GetFieldMatcher_def)

lemma GetFieldValue_exported:
  assumes "list_all f_exported e"
  shows "\<exists>r. GetFieldValue (GetFieldMatcher e) e k = Inr r"
proof -
  have fi: "idx < length e \<Longrightarrow> field_interface e idx = Inr (f_value (e ! idx))" for idx
    using assms by (simp add: field_interface_def list_all_length)
  show ?thesis
    by (auto simp: GetFieldValue_def fi dest: GetFieldMatcher_range split: option.splits)
qed

lemma update_field_returns:
  "\<exists>r. GetFieldValue m e (indexName f) = Inr r \<Longrightarrow> \<exists>bx'. update_field key e m f bx = Inr bx'"
  by (auto simp: update_field_def Let_def split: option.splits)

lemma update_fields_returns:
  "\<forall>k. \<exists>r. GetFieldValue m e k = Inr r \<Longrightarrow> \<exists>bx'. update_fields key e m fs bx = Inr bx'"
proof (induction fs arbitrary: bx)
  case Nil
  then show ?case by simp
next
  case (Cons f fs)
  from Cons.prems update_field_returns [of m e f key bx]
  obtain bx1 where "update_field key e m f bx = Inr bx1" by blast
  with Cons.IH [OF Cons.prems, of bx1] show ?case by simp
qed

lemma UpdateIndex_returns:
  "list_all f_exported e \<Longrightarrow> \<exists>bi'. UpdateIndex b key e bi = Inr bi'"
proof -
  assume "list_all f_exported e"
  then have "\<forall>k. \<exists>r. GetFieldValue (GetFieldMatcher e) e k = Inr r"
    using GetFieldValue_exported by blast
  from update_fields_returns [OF this]
  obtain bx' where "update_fields key e (GetFieldMatcher e) e
      (case bi b of None \<Rightarrow> Map.empty | Some x \<Rightarrow> x) = Inr bx'" by blast
  then show ?thesis by (simp add: UpdateIndex_def)
qed


lemma remove_field_returns:
  "\<exists>r. GetFieldValue m e (indexName f) = Inr r \<Longrightarrow> \<exists>bx'. remove_field key e m f bx = Inr bx'"
  by (auto simp: remove_field_def Let_def split: option.splits)

lemma remove_fields_returns:
  "\<forall>k. \<exists>r. GetFieldValue m e k = Inr r \<Longrightarrow> \<exists>bx'. remove_fields key e m fs bx = Inr bx'"
proof (induction fs arbitrary: bx)
  case Nil
  then show ?case by simp
next
  case (Cons f fs)
  from Cons.prems remove_field_returns [of m e f key bx]
  obtain bx1 where "remove_field key e m f bx = Inr bx1" by blast
  with Cons.IH [OF Cons.prems, of bx1] show ?case by simp
qed

lemma RemoveFromIndex_returns:
  "list_all f_exported e \<Longrightarrow> \<exists>bi'. RemoveFromIndex b key e bi = Inr bi'"
proof -
  assume "list_all f_exported e"
  then have *: "\<forall>k. \<exists>r. GetFieldValue (GetFieldMatcher e) e k = Inr r"
    using GetFieldValue_exported by blast
  show ?thesis
  proof (cases "bi b")
    case None
    then show ?thesis by (simp add: RemoveFromIndex_def)
  next
    case (Some bx)
    from remove_fields_returns [OF *]
    obtain bx' where "remove_fields key e (GetFieldMatcher e) e bx = Inr bx'" by blast
    with Some show ?thesis by (simp add: RemoveFromIndex_def)
  qed
qed



lemmas sample_record_eval = sample_record_def name_field_def tags_field_def data_field_def
  GetFieldValue_def GetFieldMatcher_def jsonTagName_def field_interface_def indexName_def

lemma sample_record_exported: "list_all f_exported sample_record"
  by (simp add: sample_record_def name_field_def tags_field_def data_field_def)

lemma index_inv_empty: "index_inv Map.empty"
  by (simp add: index_inv_def)

lemma sample_name_value:
  "name_field \<in> set sample_record"
  "indexName name_field = ''name''"
  "GetFieldValue (GetFieldMatcher sample_record) sample_record ''name''
     = Inr (Some (Val TString (DStr ''Andrew'')))"
  by (simp_all add: sample_record_eval)

lemma sample_tags_value:
  "GetFieldValue (GetFieldMatcher sample_record) sample_record ''tags''
     = Inr (Some (Val (TSlice TString) (DRef 1)))"
  by (simp add: sample_record_eval)


subsection \<open>Idempotence, removal, unhashable fields\<close>



text \<open>
  C7. Start from an index in which no key list is empty or holds a key twice,
  and take a record whose fields are all exported. Indexing the record under a key
  with \<^verbatim>\<open>UpdateIndex\<close> and then calling \<^verbatim>\<open>RemoveFromIndex\<close> with the same bucket,
  key and record both return. For every field of the record whose value, as the
  field matcher reads it under the field's index name, is hashable: before the
  removal \<^verbatim>\<open>GetIndexedKeys\<close> found a key list with the key in it; after the
  removal it returns that list without the key when other keys are left, and
  \<open>found = false\<close> when the key was the only one, the entry being deleted.
\<close>

theorem RemoveFromIndex_removes:
  assumes "index_inv bi" and "list_all f_exported r"
  shows "\<exists>bi1 bi2. UpdateIndex b key r bi = Inr bi1 \<and>
           RemoveFromIndex b key r bi1 = Inr bi2 \<and>
           (\<forall>f \<in> set r. \<forall>v.
              GetFieldValue (GetFieldMatcher r) r (indexName f) = Inr (Some v) \<and> isHashable v
              \<longrightarrow> (\<exists>keys1. GetIndexedKeys bi1 b (indexName f) v = Inr (keys1, True) \<and>
                     key \<in> set keys1 \<and> key \<notin> set (remove1 key keys1) \<and>
                     GetIndexedKeys bi2 b (indexName f) v =
                       (if remove1 key keys1 = [] then Inr ([], False)
                        else Inr (remove1 key keys1, True))))"
proof -
  from UpdateIndex_returns [OF assms(2), of b key bi]
  obtain bi1 where r1: "UpdateIndex b key r bi = Inr bi1" by blast
  from RemoveFromIndex_returns [OF assms(2), of b key bi1]
  obtain bi2 where r2: "RemoveFromIndex b key r bi1 = Inr bi2" by blast
  from remove_after_update [OF assms(1) r1 r2] r1 r2 show ?thesis by blast
qed

theorem RemoveFromIndex_removes_witness:
  "index_inv Map.empty \<and> list_all f_exported sample_record \<and>
   (case UpdateIndex ''users'' ''k1'' sample_record Map.empty of
      Inl err \<Rightarrow> False
    | Inr bi1 \<Rightarrow>
        GetIndexedKeys bi1 ''users'' ''name'' (Val TString (DStr ''Andrew''))
          = Inr ([''k1''], True) \<and>
        (case RemoveFromIndex ''users'' ''k1'' sample_record bi1 of
           Inl err \<Rightarrow> False
         | Inr bi2 \<Rightarrow>
             GetIndexedKeys bi2 ''users'' ''name'' (Val TString (DStr ''Andrew''))
               = Inr ([], False)))"
proof -
  let ?v = "Val TString (DStr ''Andrew'')"
  from RemoveFromIndex_removes [OF index_inv_empty sample_record_exported,
      of "''users''" "''k1''"]
  obtain bi1 bi2 where
    r1: "UpdateIndex ''users'' ''k1'' sample_record Map.empty = Inr bi1" and
    r2: "RemoveFromIndex ''users'' ''k1'' sample_record bi1 = Inr bi2" and
    p: "\<forall>f \<in> set sample_record. \<forall>v.
          GetFieldValue (GetFieldMatcher sample_record) sample_record (indexName f)
            = Inr (Some v) \<and> isHashable v
          \<longrightarrow> (\<exists>keys1. GetIndexedKeys bi1 ''users'' (indexName f) v = Inr (keys1, True) \<and>
                 ''k1'' \<in> set keys1 \<and> ''k1'' \<notin> set (remove1 ''k1'' keys1) \<and>
                 GetIndexedKeys bi2 ''users'' (indexName f) v =
                   (if remove1 ''k1'' keys1 = [] then Inr ([], False)
                    else Inr (remove1 ''k1'' keys1, True)))"
    by blast
  from p sample_name_value
  obtain keys1 where
    k1: "GetIndexedKeys bi1 ''users'' ''name'' ?v = Inr (keys1, True)" and
    k2: "GetIndexedKeys bi2 ''users'' ''name'' ?v =
           (if remove1 ''k1'' keys1 = [] then Inr ([], False)
            else Inr (remove1 ''k1'' keys1, True))"
    by force
  have "''name'' \<in> indexName ` set sample_record"
    using sample_name_value(1,2) by force
  then have "entry bi1 ''users'' ''name'' ?v = Some (add_key ''k1'' (entry Map.empty ''users'' ''name'' ?v))"
    using UpdateIndex_entry [OF r1, of "''users''" "''name''" ?v] sample_name_value(3)
    by simp
  then have "entry bi1 ''users'' ''name'' ?v = Some [''k1'']"
    by (simp add: entry_def add_key_def)
  then have "GetIndexedKeys bi1 ''users'' ''name'' ?v = Inr ([''k1''], True)"
    by (simp add: GetIndexedKeys_entry)
  with k1 have "keys1 = [''k1'']" by simp
  with k1 k2 r1 r2 index_inv_empty sample_record_exported show ?thesis by simp
qed

text \<open>
  C9, as the specification states it, fails for a field declared as an
  interface: the sample record has a field \<^verbatim>\<open>Data interface{}\<close> that holds the
  integer 5; \<^verbatim>\<open>isHashable\<close> looks at the dynamic type, so \<^verbatim>\<open>UpdateIndex\<close> on the
  empty index inserts the key under \<^verbatim>\<open>Data\<close>, and \<^verbatim>\<open>GetIndexedKeys\<close> for that
  field and value finds it.
\<close>

theorem interface_field_indexed_counterexample:
  "data_field \<in> set sample_record \<and> wf_field data_field \<and>
   f_type data_field = TInterface \<and> \<not> isTypeHashable (f_type data_field) \<and>
   (case UpdateIndex ''users'' ''k1'' sample_record Map.empty of
      Inl err \<Rightarrow> False
    | Inr bi' \<Rightarrow>
        GetIndexedKeys bi' ''users'' ''Data'' (Val TInt (DInt 5)) = Inr ([''k1''], True))"
proof -
  have ex: "list_all f_exported sample_record"
    by (simp add: sample_record_def name_field_def tags_field_def data_field_def)
  from UpdateIndex_returns [OF ex, of "''users''" "''k1''" Map.empty]
  obtain bi' where r: "UpdateIndex ''users'' ''k1'' sample_record Map.empty = Inr bi'"
    by blast
  have nm: "indexName data_field = ''Data''"
    by (simp add: indexName_def jsonTagName_def data_field_def)
  have gv: "GetFieldValue (GetFieldMatcher sample_record) sample_record ''Data''
              = Inr (Some (Val TInt (DInt 5)))"
    by (simp add: GetFieldValue_def GetFieldMatcher_def sample_record_def name_field_def
        tags_field_def data_field_def jsonTagName_def field_interface_def)
  have "''Data'' \<in> indexName ` set sample_record"
    using nm by (force simp: sample_record_def)
  then have "entry bi' ''users'' ''Data'' (Val TInt (DInt 5))
               = Some (add_key ''k1'' (entry Map.empty ''users'' ''Data'' (Val TInt (DInt 5))))"
    using UpdateIndex_entry [OF r, of "''users''" "''Data''" "Val TInt (DInt 5)"] gv
    by simp
  then have "entry bi' ''users'' ''Data'' (Val TInt (DInt 5)) = Some [''k1'']"
    by (simp add: entry_def add_key_def)
  then have "GetIndexedKeys bi' ''users'' ''Data'' (Val TInt (DInt 5)) = Inr ([''k1''], True)"
    by (simp add: GetIndexedKeys_entry)
  with r show ?thesis
    by (simp add: sample_record_def wf_field_def data_field_def)
qed

text \<open>
  C9, amended. Take a record whose fields are all exported; \<^verbatim>\<open>UpdateIndex\<close>
  returns. When the value that the field matcher reads under an index name of the
  record has an unhashable dynamic type, \<^verbatim>\<open>UpdateIndex\<close> inserts no key under that
  name: for every probe value that can be used as a map key, \<^verbatim>\<open>GetIndexedKeys\<close>
  for that name returns after the call what it returned before, and
  \<open>found = false\<close> when the bucket had no index before. A field declared with a
  type other than an interface holds a value of that type, so this covers every
  field declared as a slice, map, function or channel, or as a pointer, array or
  struct that contains one of them or an interface; a field declared as an
  interface is indexed by the dynamic type of what it holds.
\<close>

theorem UpdateIndex_skips_unhashable:
  assumes "list_all f_exported r"
  shows "\<exists>bi'. UpdateIndex b key r bi = Inr bi' \<and>
           (\<forall>fn v probe.
              GetFieldValue (GetFieldMatcher r) r fn = Inr (Some v) \<and> \<not> isHashable v \<and>
              mapKeyOK probe \<longrightarrow>
                GetIndexedKeys bi' b fn probe = GetIndexedKeys bi b fn probe \<and>
                (bi b = None \<longrightarrow> GetIndexedKeys bi' b fn probe = Inr ([], False))) \<and>
           (\<forall>f. wf_field f \<and> f_type f \<noteq> TInterface \<and> \<not> isTypeHashable (f_type f)
                 \<longrightarrow> \<not> isHashable (f_value f))"
proof -
  from UpdateIndex_returns [OF assms, of b key bi]
  obtain bi' where r: "UpdateIndex b key r bi = Inr bi'" by blast
  have "GetIndexedKeys bi' b fn probe = GetIndexedKeys bi b fn probe \<and>
        (bi b = None \<longrightarrow> GetIndexedKeys bi' b fn probe = Inr ([], False))"
    if "GetFieldValue (GetFieldMatcher r) r fn = Inr (Some v)" "\<not> isHashable v"
      "mapKeyOK probe" for fn v probe
    using unhashable_untouched [OF r that] by blast
  with r unhashable_declared_type show ?thesis by blast
qed

theorem UpdateIndex_skips_unhashable_witness:
  "list_all f_exported sample_record \<and>
   GetFieldValue (GetFieldMatcher sample_record) sample_record ''tags''
     = Inr (Some (Val (TSlice TString) (DRef 1))) \<and>
   \<not> isHashable (Val (TSlice TString) (DRef 1)) \<and>
   mapKeyOK (Val TString (DStr ''go'')) \<and>
   (case UpdateIndex ''users'' ''k1'' sample_record Map.empty of
      Inl err \<Rightarrow> False
    | Inr bi' \<Rightarrow>
        GetIndexedKeys bi' ''users'' ''tags'' (Val TString (DStr ''go'')) = Inr ([], False))"
proof -
  from UpdateIndex_skips_unhashable [OF sample_record_exported,
      of "''users''" "''k1''" Map.empty]
  obtain bi' where
    r: "UpdateIndex ''users'' ''k1'' sample_record Map.empty = Inr bi'" and
    p: "\<forall>fn v probe.
          GetFieldValue (GetFieldMatcher sample_record) sample_record fn = Inr (Some v) \<and>
          \<not> isHashable v \<and> mapKeyOK probe \<longrightarrow>
            GetIndexedKeys bi' ''users'' fn probe = GetIndexedKeys Map.empty ''users'' fn probe \<and>
            (Map.empty ''users'' = None \<longrightarrow>
               GetIndexedKeys bi' ''users'' fn probe = Inr ([], False))"
    by blast
  have h: "\<not> isHashable (Val (TSlice TString) (DRef 1))" "mapKeyOK (Val TString (DStr ''go''))"
    by simp_all
  from p sample_tags_value h
  have "GetIndexedKeys bi' ''users'' ''tags'' (Val TString (DStr ''go'')) = Inr ([], False)"
    by blast
  with r sample_record_exported sample_tags_value h show ?thesis by simp
qed


section \<open>Properties of the query planner\<close>

subsection \<open>Intersection of key lists\<close>

lemma fold_bMap:
  "fold (\<lambda>item m. m(item \<mapsto> True)) ys m0 x = (if x \<in> set ys then Some True else m0 x)"
  by (induction ys arbitrary: m0) auto

lemma intersect_loop_set:
  "set (intersect_loop xs m) = {x \<in> set xs. m x = Some True}"
proof (induction xs arbitrary: m)
  case Nil
  then show ?case by simp
next
  case (Cons x xs)
  show ?case
  proof (cases "m x = Some True")
    case True
    then have "set (intersect_loop (x # xs) m) = insert x (set (intersect_loop xs (m(x := None))))"
      by simp
    also have "\<dots> = insert x {y \<in> set xs. (m(x := None)) y = Some True}"
      by (simp only: Cons.IH)
    also have "\<dots> = {y \<in> set (x # xs). m y = Some True}"
      using True by auto
    finally show ?thesis .
  next
    case False
    then have "intersect_loop (x # xs) m = intersect_loop xs m"
      by (cases "m x") auto
    with Cons.IH [of m] False show ?thesis by auto
  qed
qed

lemma intersectStringSlices_set:
  "set (intersectStringSlices a b) = set a \<inter> set b"
proof (cases "length a = 0 \<or> length b = 0")
  case True
  then show ?thesis by (auto simp: intersectStringSlices_def)
next
  case False
  then show ?thesis
    by (auto simp: intersectStringSlices_def Let_def intersect_loop_set fold_bMap)
qed


subsection \<open>The criteria loop\<close>

lemma probe_keys_SomeD:
  "probe_keys bi b c = Some keys \<Longrightarrow> GetIndexedKeys bi b (fst c) (snd c) = Inr (keys, True)"
  by (auto simp: probe_keys_def split: sum.splits prod.splits if_splits)

lemma probe_keys_NoneD:
  "probe_keys bi b c = None \<Longrightarrow> mapKeyOK (snd c) \<Longrightarrow>
   \<exists>keys. GetIndexedKeys bi b (fst c) (snd c) = Inr (keys, False)"
  by (auto simp: probe_keys_def GetIndexedKeys_entry split: option.splits)

lemma loop_first:
  "probe_keys bi b c = Some keys \<Longrightarrow>
   criteria_loop bi b (c # rest) ck True = criteria_loop bi b rest (Some keys) False"
  by (cases c) (auto dest!: probe_keys_SomeD)

lemma loop_found:
  "probe_keys bi b c = Some keys \<Longrightarrow>
   criteria_loop bi b (c # rest) (Some ck) False =
     (if intersectStringSlices ck keys = [] then Inr EarlyEmpty
      else criteria_loop bi b rest (Some (intersectStringSlices ck keys)) False)"
  by (cases c) (auto dest!: probe_keys_SomeD simp: Let_def)

lemma loop_notfound:
  "probe_keys bi b c = None \<Longrightarrow> mapKeyOK (snd c) \<Longrightarrow>
   criteria_loop bi b (c # rest) ck ff = Inr (Candidates None)"
  by (cases c) (auto dest!: probe_keys_NoneD)

lemma common_keys_Cons_found:
  "probe_keys bi b c = Some keys \<Longrightarrow> common_keys bi b (c # cs) = set keys \<inter> common_keys bi b cs"
  by simp

lemma loop_all_found:
  "\<forall>c \<in> set cs. probe_found bi b c \<Longrightarrow>
   (criteria_loop bi b cs (Some ck) False = Inr EarlyEmpty \<and>
      set ck \<inter> common_keys bi b cs = {}) \<or>
   (\<exists>ks. criteria_loop bi b cs (Some ck) False = Inr (Candidates (Some ks)) \<and>
      set ks = set ck \<inter> common_keys bi b cs)"
proof (induction cs arbitrary: ck)
  case Nil
  then show ?case by simp
next
  case (Cons c cs)
  then obtain keys where k: "probe_keys bi b c = Some keys"
    by (auto simp: probe_found_def)
  let ?ck = "intersectStringSlices ck keys"
  have s: "set ?ck = set ck \<inter> set keys" by (rule intersectStringSlices_set)
  have c: "set ck \<inter> common_keys bi b (c # cs) = set ?ck \<inter> common_keys bi b cs"
    using k s by auto
  show ?case
  proof (cases "?ck = []")
    case True
    then have "set ck \<inter> set keys = {}" using s by simp
    then have "set ck \<inter> common_keys bi b (c # cs) = {}" using k by auto
    with True loop_found [OF k, of cs ck] show ?thesis by simp
  next
    case False
    from Cons.prems have "\<forall>c \<in> set cs. probe_found bi b c" by simp
    from Cons.IH [OF this, of ?ck] False loop_found [OF k, of cs ck] c
    show ?thesis by simp
  qed
qed

lemma loop_abandoned:
  "\<forall>p \<in> set pre. probe_found bi b p \<Longrightarrow> probe_keys bi b c = None \<Longrightarrow>
   mapKeyOK (snd c) \<Longrightarrow> pre = [] \<or> set ck \<inter> common_keys bi b pre \<noteq> {} \<Longrightarrow>
   criteria_loop bi b (pre @ c # post) (Some ck) False = Inr (Candidates None)"
proof (induction pre arbitrary: ck)
  case Nil
  then show ?case by (simp add: loop_notfound)
next
  case (Cons p pre)
  then obtain keys where k: "probe_keys bi b p = Some keys"
    by (auto simp: probe_found_def)
  let ?ck = "intersectStringSlices ck keys"
  have s: "set ?ck = set ck \<inter> set keys" by (rule intersectStringSlices_set)
  from Cons.prems(4) k have ne: "set ?ck \<inter> common_keys bi b pre \<noteq> {}"
    using s by auto
  then have "?ck \<noteq> []" by auto
  moreover have "criteria_loop bi b (pre @ c # post) (Some ?ck) False = Inr (Candidates None)"
    using Cons.prems(1,2,3) ne by (intro Cons.IH) auto
  ultimately show ?case
    using loop_found [OF k, of "pre @ c # post" ck] by simp
qed

lemma loop_early_empty:
  "\<forall>p \<in> set pre. probe_found bi b p \<Longrightarrow> pre \<noteq> [] \<Longrightarrow>
   set ck \<inter> common_keys bi b pre = {} \<Longrightarrow>
   criteria_loop bi b (pre @ post) (Some ck) False = Inr EarlyEmpty"
proof (induction pre arbitrary: ck)
  case Nil
  then show ?case by simp
next
  case (Cons p pre)
  then obtain keys where k: "probe_keys bi b p = Some keys"
    by (auto simp: probe_found_def)
  let ?ck = "intersectStringSlices ck keys"
  have s: "set ?ck = set ck \<inter> set keys" by (rule intersectStringSlices_set)
  have e: "set ?ck \<inter> common_keys bi b pre = {}"
    using Cons.prems(3) k s by auto
  show ?case
  proof (cases "?ck = []")
    case True
    with loop_found [OF k, of "pre @ post" ck] show ?thesis by simp
  next
    case False
    have "pre \<noteq> []"
    proof
      assume "pre = []"
      with e have "set ?ck = {}" by simp
      with False show False by simp
    qed
    with Cons.prems(1) e
    have "criteria_loop bi b (pre @ post) (Some ?ck) False = Inr EarlyEmpty"
      by (intro Cons.IH) auto
    with False loop_found [OF k, of "pre @ post" ck] show ?thesis by simp
  qed
qed

subsection \<open>The index part of the query\<close>

lemma index_lookup_multi:
  "HasIndex bi b \<Longrightarrow> 2 \<le> length cs \<Longrightarrow>
   index_lookup ev st bi b cs =
     (case criteria_loop bi b cs None True of
        Inl err \<Rightarrow> Inl err
      | Inr EarlyEmpty \<Rightarrow> Inr (Some [])
      | Inr (Candidates None) \<Rightarrow> Inr None
      | Inr (Candidates (Some candidateKeys)) \<Rightarrow> Inr (Some (fetch ev st b candidateKeys)))"
  by (simp add: index_lookup_def)

lemma fetch_Nil: "fetch ev st b [] = []"
  by (simp add: fetch_def List.map_filter_simps)

lemma index_lookup_all_found:
  assumes "HasIndex bi b" "2 \<le> length cs" "\<forall>c \<in> set cs. probe_found bi b c"
  shows "\<exists>ks. set ks = common_keys bi b cs \<and>
              index_lookup ev st bi b cs = Inr (Some (fetch ev st b ks))"
proof -
  from assms(2) obtain c rest where cs: "cs = c # rest" by (cases cs) auto
  with assms(3) obtain keys where k: "probe_keys bi b c = Some keys"
    by (auto simp: probe_found_def)
  have first: "criteria_loop bi b cs None True = criteria_loop bi b rest (Some keys) False"
    unfolding cs by (rule loop_first [OF k])
  have cm: "common_keys bi b cs = set keys \<inter> common_keys bi b rest"
    using k cs by simp
  from assms(3) cs have "\<forall>c \<in> set rest. probe_found bi b c" by simp
  from loop_all_found [OF this, of keys]
  consider "criteria_loop bi b rest (Some keys) False = Inr EarlyEmpty"
      "set keys \<inter> common_keys bi b rest = {}"
    | ks where "criteria_loop bi b rest (Some keys) False = Inr (Candidates (Some ks))"
      "set ks = set keys \<inter> common_keys bi b rest"
    by blast
  then show ?thesis
  proof cases
    case 1
    then have "index_lookup ev st bi b cs = Inr (Some (fetch ev st b []))"
      using first by (simp add: index_lookup_multi [OF assms(1,2)] fetch_Nil)
    moreover have "set [] = common_keys bi b cs" using 1 cm by simp
    ultimately show ?thesis by blast
  next
    case 2
    then have "index_lookup ev st bi b cs = Inr (Some (fetch ev st b ks))"
      using first by (simp add: index_lookup_multi [OF assms(1,2)])
    with 2 cm show ?thesis by auto
  qed
qed

lemma index_lookup_abandoned:
  assumes "HasIndex bi b" "2 \<le> length cs" "cs = pre @ c # post"
    "\<forall>p \<in> set pre. probe_found bi b p" "probe_keys bi b c = None" "mapKeyOK (snd c)"
    "length pre \<le> 1 \<or> common_keys bi b pre \<noteq> {}"
  shows "index_lookup ev st bi b cs = Inr None"
proof -
  have "criteria_loop bi b cs None True = Inr (Candidates None)"
  proof (cases pre)
    case Nil
    with assms(3,5,6) show ?thesis by (simp add: loop_notfound)
  next
    case (Cons p pre')
    with assms(4) obtain keys where k: "probe_keys bi b p = Some keys"
      by (auto simp: probe_found_def)
    have "pre' = [] \<or> set keys \<inter> common_keys bi b pre' \<noteq> {}"
      using assms(7) Cons k by auto
    with assms(4,5,6) Cons
    have "criteria_loop bi b (pre' @ c # post) (Some keys) False = Inr (Candidates None)"
      by (intro loop_abandoned) auto
    with Cons assms(3) loop_first [OF k, of "pre' @ c # post" None] show ?thesis by simp
  qed
  then show ?thesis by (simp add: index_lookup_multi [OF assms(1,2)])
qed

lemma index_lookup_early_empty:
  assumes "HasIndex bi b" "cs = pre @ post" "2 \<le> length pre"
    "\<forall>p \<in> set pre. probe_found bi b p" "common_keys bi b pre = {}"
  shows "index_lookup ev st bi b cs = Inr (Some [])"
proof -
  from assms(3) obtain p pre' where pre: "pre = p # pre'" "pre' \<noteq> []"
    by (cases pre) (auto simp: Suc_le_eq)
  with assms(4) obtain keys where k: "probe_keys bi b p = Some keys"
    by (auto simp: probe_found_def)
  have "set keys \<inter> common_keys bi b pre' = {}"
    using assms(5) pre k by simp
  with assms(4) pre
  have "criteria_loop bi b (pre' @ post) (Some keys) False = Inr EarlyEmpty"
    by (intro loop_early_empty) auto
  with pre assms(2) loop_first [OF k, of "pre' @ post" None]
  have "criteria_loop bi b cs None True = Inr EarlyEmpty" by simp
  moreover have "2 \<le> length cs" using assms(2,3) by simp
  ultimately show ?thesis by (simp add: index_lookup_multi [OF assms(1)])
qed


lemmas xyz_eval = xyz_record_def int_field_def GetFieldValue_def GetFieldMatcher_def
  jsonTagName_def field_interface_def indexName_def UpdateIndex_def update_field_def Let_def
  GetIndexedKeys_def HasIndex_def

lemma ab_x: "GetIndexedKeys ab_index ''items'' ''x'' (Val TInt (DInt 1)) = Inr ([''A'', ''B''], True)"
  by (simp add: ab_index_def xyz_eval)

lemma ab_y: "GetIndexedKeys ab_index ''items'' ''y'' (Val TInt (DInt 2)) = Inr ([''A''], True)"
  by (simp add: ab_index_def xyz_eval)

lemma ab_has: "HasIndex ab_index ''items''"
  by (simp add: ab_index_def xyz_eval)

lemma ab_get:
  "db_Get sample_env ab_store ''items'' ''A'' = Some (xyz_record 1 2 0)"
  by (simp add: db_Get_def ab_store_def stored_def sample_env_def CompressData_def
      CompressData_with_def threshold_def DecompressData_def None_codec_def xyz_bytes_def
      xyz_unmarshal_def)


subsection \<open>The samples\<close>

lemmas scan_eval = FindWhereInDatabase_def index_lookup_def scan_def producer_def
  db_ForEach_values_def collect.simps worker_run.simps worker_share_def numWorkers_def
  worker_item_def fetch_def List.map_filter_simps db_Get_def stored_def sample_env_def
  sample_schedule_def CompressData_def CompressData_with_def threshold_def DecompressData_def
  codec_ids xyz_bytes_def xyz_unmarshal_def intersectStringSlices_def

lemma abc_has: "HasIndex abc_index ''items''"
  by (simp add: abc_index_def xyz_eval)

lemma abc_x: "probe_keys abc_index ''items'' (''x'', Val TInt (DInt 1)) = Some [''A'']"
  by (simp add: probe_keys_def abc_index_def xyz_eval)

lemma abc_y: "probe_keys abc_index ''items'' (''y'', Val TInt (DInt 2)) = Some [''B'']"
  by (simp add: probe_keys_def abc_index_def xyz_eval)

lemma abc_z: "probe_keys abc_index ''items'' (''z'', Val TInt (DInt 9)) = None"
  by (simp add: probe_keys_def abc_index_def xyz_eval)

lemma ab_query:
  "FindWhereInDatabase sample_env sched (Some ab_store) ab_index ''items''
     [(''x'', Val TInt (DInt 1)), (''y'', Val TInt (DInt 2))] = Inr [xyz_record 1 2 0]"
  "FindWhereInDatabase sample_env sched (Some ab_store) ab_index ''items''
     [(''y'', Val TInt (DInt 2)), (''x'', Val TInt (DInt 1))] = Inr [xyz_record 1 2 0]"
  by (simp_all add: ab_has ab_x ab_y FindWhereInDatabase_def index_lookup_def
      intersectStringSlices_def fetch_def List.map_filter_simps ab_get)

lemma abc_scan:
  "scan sample_env sample_schedule abc_store ''items''
     [(''z'', Val TInt (DInt 9)), (''x'', Val TInt (DInt 1)), (''y'', Val TInt (DInt 2))]
   = Inr [xyz_record 1 2 9]"
  by (simp add: scan_eval abc_store_def xyz_eval)


subsection \<open>Queries with two or more criteria\<close>

text \<open>
  C4, as the specification states it, fails in its second part. In the bucket
  where \<^verbatim>\<open>A:{x:1,y:3}\<close> and \<^verbatim>\<open>B:{x:2,y:2}\<close> are indexed, the criterion \<^verbatim>\<open>z:9\<close>
  is not found in the index. When the loop visits the criteria of the query
  \<^verbatim>\<open>{x:1, y:2, z:9}\<close> in the order x, y, z, the key lists of x and y share no key
  and the query returns the empty result at once: \<^verbatim>\<open>z\<close> is never probed and no
  scan is made, though the scan finds the record \<^verbatim>\<open>C:{x:1,y:2,z:9}\<close> that was
  stored without going through the index.
\<close>

theorem early_return_counterexample:
  "HasIndex abc_index ''items'' \<and>
   probe_keys abc_index ''items'' (''z'', Val TInt (DInt 9)) = None \<and>
   FindWhereInDatabase sample_env sample_schedule (Some abc_store) abc_index ''items''
     [(''x'', Val TInt (DInt 1)), (''y'', Val TInt (DInt 2)), (''z'', Val TInt (DInt 9))]
     = Inr [] \<and>
   scan sample_env sample_schedule abc_store ''items''
     [(''x'', Val TInt (DInt 1)), (''y'', Val TInt (DInt 2)), (''z'', Val TInt (DInt 9))]
     = Inr [xyz_record 1 2 9]"
proof -
  have "probe_found abc_index ''items'' (''x'', Val TInt (DInt 1))"
    "probe_found abc_index ''items'' (''y'', Val TInt (DInt 2))"
    by (simp_all add: probe_found_def abc_x abc_y)
  moreover have "common_keys abc_index ''items''
      [(''x'', Val TInt (DInt 1)), (''y'', Val TInt (DInt 2))] = {}"
    by (simp add: abc_x abc_y)
  ultimately have "index_lookup sample_env abc_store abc_index ''items''
      ([(''x'', Val TInt (DInt 1)), (''y'', Val TInt (DInt 2))] @ [(''z'', Val TInt (DInt 9))])
      = Inr (Some [])"
    by (intro index_lookup_early_empty [OF abc_has refl]) simp_all
  then have "FindWhereInDatabase sample_env sample_schedule (Some abc_store) abc_index ''items''
     [(''x'', Val TInt (DInt 1)), (''y'', Val TInt (DInt 2)), (''z'', Val TInt (DInt 9))]
     = Inr []"
    by (simp add: FindWhereInDatabase_def)
  moreover have "scan sample_env sample_schedule abc_store ''items''
     [(''x'', Val TInt (DInt 1)), (''y'', Val TInt (DInt 2)), (''z'', Val TInt (DInt 9))]
     = Inr [xyz_record 1 2 9]"
    by (simp add: scan_eval abc_store_def xyz_eval)
  ultimately show ?thesis
    by (simp add: abc_has abc_z)
qed

text \<open>
  C4, amended. Take a query with two or more criteria on a bucket that has an
  index; the list of criteria is the order in which the loop visits them.
  (1) When every criterion is found in the index, the candidate keys are exactly
  the keys common to the key lists of all criteria, and the query returns the
  records of those candidates whose re-read from the store succeeds.
  (2) When a criterion is not found, every criterion visited before it is found,
  and either at most one criterion was visited before it or the key lists of the
  criteria visited before it share a key, the index is abandoned and the query is
  the full scan; with exactly two criteria this is every case of a criterion that
  is not found.
  (3) When the first two or more criteria visited are found and their key lists
  share no key, the query returns the empty result at once, without probing the
  remaining criteria and without a scan.
  (4) Over \<^verbatim>\<open>A:{x:1,y:2}\<close> and \<^verbatim>\<open>B:{x:1,y:3}\<close> the query \<^verbatim>\<open>{x:1, y:2}\<close> returns only
  \<^verbatim>\<open>A\<close>, in either order of the criteria.
\<close>

theorem FindWhere_multiple_criteria:
  assumes "HasIndex bi b" and "2 \<le> length cs"
  shows
    "((\<forall>c \<in> set cs. probe_found bi b c) \<longrightarrow>
        (\<exists>ks. set ks = common_keys bi b cs \<and>
              FindWhereInDatabase ev sched (Some st) bi b cs = Inr (fetch ev st b ks))) \<and>
     (\<forall>pre c post.
        cs = pre @ c # post \<and> (\<forall>p \<in> set pre. probe_found bi b p) \<and>
        probe_keys bi b c = None \<and> mapKeyOK (snd c) \<and>
        (length pre \<le> 1 \<or> common_keys bi b pre \<noteq> {}) \<longrightarrow>
          FindWhereInDatabase ev sched (Some st) bi b cs = scan ev sched st b cs) \<and>
     (\<forall>pre post.
        cs = pre @ post \<and> 2 \<le> length pre \<and> (\<forall>p \<in> set pre. probe_found bi b p) \<and>
        common_keys bi b pre = {} \<longrightarrow>
          FindWhereInDatabase ev sched (Some st) bi b cs = Inr []) \<and>
     FindWhereInDatabase sample_env sched (Some ab_store) ab_index ''items''
       [(''x'', Val TInt (DInt 1)), (''y'', Val TInt (DInt 2))] = Inr [xyz_record 1 2 0] \<and>
     FindWhereInDatabase sample_env sched (Some ab_store) ab_index ''items''
       [(''y'', Val TInt (DInt 2)), (''x'', Val TInt (DInt 1))] = Inr [xyz_record 1 2 0]"
proof (intro conjI impI allI)
  assume "\<forall>c \<in> set cs. probe_found bi b c"
  from index_lookup_all_found [OF assms this, of ev st]
  show "\<exists>ks. set ks = common_keys bi b cs \<and>
          FindWhereInDatabase ev sched (Some st) bi b cs = Inr (fetch ev st b ks)"
    by (auto simp: FindWhereInDatabase_def)
next
  fix pre c post
  assume a: "cs = pre @ c # post \<and> (\<forall>p \<in> set pre. probe_found bi b p) \<and>
        probe_keys bi b c = None \<and> mapKeyOK (snd c) \<and>
        (length pre \<le> 1 \<or> common_keys bi b pre \<noteq> {})"
  then have "index_lookup ev st bi b cs = Inr None"
    by (intro index_lookup_abandoned [OF assms, of pre c post]) auto
  then show "FindWhereInDatabase ev sched (Some st) bi b cs = scan ev sched st b cs"
    by (simp add: FindWhereInDatabase_def)
next
  fix pre post
  assume a: "cs = pre @ post \<and> 2 \<le> length pre \<and> (\<forall>p \<in> set pre. probe_found bi b p) \<and>
        common_keys bi b pre = {}"
  then have "index_lookup ev st bi b cs = Inr (Some [])"
    by (intro index_lookup_early_empty [OF assms(1), of cs pre post]) auto
  then show "FindWhereInDatabase ev sched (Some st) bi b cs = Inr []"
    by (simp add: FindWhereInDatabase_def)
qed (rule ab_query)+

theorem FindWhere_multiple_criteria_witness:
  "HasIndex abc_index ''items'' \<and>
   probe_found abc_index ''items'' (''x'', Val TInt (DInt 1)) \<and>
   probe_keys abc_index ''items'' (''z'', Val TInt (DInt 9)) = None \<and>
   mapKeyOK (Val TInt (DInt 9)) \<and>
   FindWhereInDatabase sample_env sample_schedule (Some abc_store) abc_index ''items''
     [(''x'', Val TInt (DInt 1)), (''z'', Val TInt (DInt 9)), (''y'', Val TInt (DInt 2))]
   = scan sample_env sample_schedule abc_store ''items''
     [(''x'', Val TInt (DInt 1)), (''z'', Val TInt (DInt 9)), (''y'', Val TInt (DInt 2))] \<and>
   scan sample_env sample_schedule abc_store ''items''
     [(''x'', Val TInt (DInt 1)), (''z'', Val TInt (DInt 9)), (''y'', Val TInt (DInt 2))]
   = Inr [xyz_record 1 2 9]"
proof -
  let ?cs = "[(''x'', Val TInt (DInt 1)), (''z'', Val TInt (DInt 9)), (''y'', Val TInt (DInt 2))]"
  have l: "2 \<le> length ?cs" by simp
  have x: "probe_found abc_index ''items'' (''x'', Val TInt (DInt 1))"
    by (simp add: probe_found_def abc_x)
  have split: "?cs = [(''x'', Val TInt (DInt 1))] @ (''z'', Val TInt (DInt 9)) # [(''y'', Val TInt (DInt 2))]"
    by simp
  from FindWhere_multiple_criteria [OF abc_has l, of sample_env sample_schedule abc_store]
  have "\<forall>pre c post.
        ?cs = pre @ c # post \<and> (\<forall>p \<in> set pre. probe_found abc_index ''items'' p) \<and>
        probe_keys abc_index ''items'' c = None \<and> mapKeyOK (snd c) \<and>
        (length pre \<le> 1 \<or> common_keys abc_index ''items'' pre \<noteq> {}) \<longrightarrow>
          FindWhereInDatabase sample_env sample_schedule (Some abc_store) abc_index ''items'' ?cs
            = scan sample_env sample_schedule abc_store ''items'' ?cs"
    by blast
  from this [rule_format, of "[(''x'', Val TInt (DInt 1))]" "(''z'', Val TInt (DInt 9))"
      "[(''y'', Val TInt (DInt 2))]"] x abc_z
  have "FindWhereInDatabase sample_env sample_schedule (Some abc_store) abc_index ''items'' ?cs
            = scan sample_env sample_schedule abc_store ''items'' ?cs"
    by simp
  moreover have "scan sample_env sample_schedule abc_store ''items'' ?cs = Inr [xyz_record 1 2 9]"
    by (simp add: scan_eval abc_store_def xyz_eval)
  ultimately show ?thesis
    using x abc_has abc_z by simp
qed


section \<open>Properties of the scan\<close>









end
